theory Spec2Isabelle
  imports Complex_Main "HOL-Library.Word" "HOL-Library.Log_Nat" "HOL-Library.Sublist"
begin

unbundle bit_operations_syntax

section \<open>The tracing engine of \<^verbatim>\<open>src/utils/imageUtils.ts\<close>\<close>

text \<open>
  The engine is the function \<^verbatim>\<open>traceImageToSVG\<close>. Its pixel buffer is a
  \<^verbatim>\<open>Uint32Array\<close> over the canvas image data: one packed 32-bit value per pixel,
  in row-major order. Its visited mask is a \<^verbatim>\<open>Uint8Array\<close> holding 0 or 1.
\<close>

subsection \<open>Packed colors and the color comparator\<close>

type_synonym color = "32 word"

text \<open>
  \<^verbatim>\<open>(color >> k) & 0xff\<close>: JavaScript converts the left operand of \<^verbatim>\<open>>>\<close> to a signed
  32-bit integer, shifts it arithmetically (the sign bit is copied in), and the
  conjunction with \<^verbatim>\<open>0xff\<close> is again a signed 32-bit integer.
\<close>

definition channel :: "nat \<Rightarrow> color \<Rightarrow> int" where
  "channel k c = sint (signed_drop_bit k c AND 0xff)"

text \<open>\<^verbatim>\<open>color & 0xff\<close>, the red channel, taken without a shift.\<close>

definition lowByte :: "color \<Rightarrow> int" where
  "lowByte c = sint (c AND 0xff)"

text \<open>
  The tolerance is \<^verbatim>\<open>options.tolerance\<close>; the specification types it as an integer,
  and the model does so too.
\<close>

definition isColorSimilar :: "color \<Rightarrow> color \<Rightarrow> int \<Rightarrow> bool" where
  "isColorSimilar color1 color2 tol =
     (if color1 = color2 then True
      else
        let a1 = channel 24 color1;
            a2 = channel 24 color2
        in if a1 < 2 \<and> a2 < 2 then True
           else if \<bar>a1 - a2\<bar> > tol then False
           else
             let b1 = channel 16 color1;
                 g1 = channel 8 color1;
                 r1 = lowByte color1;
                 b2 = channel 16 color2;
                 g2 = channel 8 color2;
                 r2 = lowByte color2
             in \<bar>r1 - r2\<bar> \<le> tol \<and> \<bar>g1 - g2\<bar> \<le> tol \<and> \<bar>b1 - b2\<bar> \<le> tol)"

text \<open>
  The channels as the specification describes them: four 8-bit fields of the unsigned
  packed value, alpha in the highest byte, then blue, green, red.
\<close>

definition alphaOf :: "color \<Rightarrow> int" where
  "alphaOf c = (uint c div 2 ^ 24) mod 256"

definition blueOf :: "color \<Rightarrow> int" where
  "blueOf c = (uint c div 2 ^ 16) mod 256"

definition greenOf :: "color \<Rightarrow> int" where
  "greenOf c = (uint c div 2 ^ 8) mod 256"

definition redOf :: "color \<Rightarrow> int" where
  "redOf c = uint c mod 256"

subsection \<open>Loops\<close>

text \<open>
  \<^verbatim>\<open>for (let i = a; i < n; i++) body\<close>, for the loops of the source whose body neither
  breaks nor assigns the loop variable. The body is a state transformer that reads the
  loop variable.
\<close>

function for_loop :: "nat \<Rightarrow> nat \<Rightarrow> (nat \<Rightarrow> 's \<Rightarrow> 's) \<Rightarrow> 's \<Rightarrow> 's" where
  "for_loop i n body s = (if i < n then for_loop (Suc i) n body (body i s) else s)"
  by pat_completeness auto
termination
  by (relation "measure (\<lambda>(i, n, body, s). n - i)") auto

declare for_loop.simps [simp del]

subsection \<open>Pixel buffer, visited mask and trace state\<close>

text \<open>
  \<^verbatim>\<open>targetWidth\<close>, \<^verbatim>\<open>targetHeight\<close> and \<^verbatim>\<open>data\<close>. The canvas hands back
  \<^verbatim>\<open>targetWidth * targetHeight\<close> pixels. The model does not rely on that length: it reads
  the arrays as JavaScript reads typed arrays.
\<close>

record pixel_buffer =
  targetWidth :: nat
  targetHeight :: nat
  data :: "color list"

text \<open>
  Reading a typed array out of range yields \<^verbatim>\<open>undefined\<close>. For the mask that is falsy.
  For the pixel data every use in the source (\<^verbatim>\<open>>>\<close>, \<^verbatim>\<open>&\<close>, and the comparison
  in \<^verbatim>\<open>isColorSimilar\<close> against an anchor whose alpha is at least 2) treats it as it
  treats 0. Writing a typed array out of range does nothing, as \<open>xs[i := v]\<close> does.
\<close>

definition data_at :: "color list \<Rightarrow> nat \<Rightarrow> color" where
  "data_at d i = (if i < length d then d ! i else 0)"

definition visited_at :: "bool list \<Rightarrow> nat \<Rightarrow> bool" where
  "visited_at v i = (i < length v \<and> v ! i)"

text \<open>
  A committed rectangle, as the specification names it. The source emits it only as a
  path command; the trace state below also keeps the rectangles and the skipped pixels
  in commit order, so that properties of them can be stated.
\<close>

record region_rect =
  rx :: nat
  ry :: nat
  rw :: nat
  rh :: nat
  colorKey :: color

text \<open>
  \<^verbatim>\<open>colorPaths\<close> is a JavaScript \<^verbatim>\<open>Map\<close>: keys are unique and iteration follows the
  order in which keys were first inserted. \<^verbatim>\<open>progressLog\<close> is the sequence of values
  passed to \<^verbatim>\<open>onProgress\<close>; \<open>None\<close> stands for a value that is not a finite number.
\<close>

record trace_state =
  visited :: "bool list"
  processed :: nat
  colorPaths :: "(color \<times> string list) list"
  regionRects :: "region_rect list"
  skippedPixels :: "(nat \<times> nat) list"
  progressLog :: "int option list"

subsection \<open>Numbers as text\<close>

text \<open>Decimal digits of a natural number, as a template literal prints an integer.\<close>

definition digitChar :: "nat \<Rightarrow> char" where
  "digitChar d = ''0123456789'' ! (d mod 10)"

function showNat :: "nat \<Rightarrow> string" where
  "showNat n = (if n < 10 then [digitChar n] else showNat (n div 10) @ [digitChar (n mod 10)])"
  by pat_completeness auto
termination
  by (relation "measure id") auto

declare showNat.simps [simp del]

text \<open>
  The bleed is \<^verbatim>\<open>b = 0.2\<close>, and the source prints \<^verbatim>\<open>x - b\<close> and \<^verbatim>\<open>rectW + b * 2\<close>
  for integers \<^verbatim>\<open>x\<close> and \<^verbatim>\<open>rectW\<close>. The model keeps these numbers exactly, in tenths,
  and prints them with one decimal digit: \<open>showTenths (10 * x - 2)\<close> is the text of
  \<^verbatim>\<open>x - 0.2\<close>. (For coordinates that a canvas can have, the double nearest to such a
  number prints as that decimal.)
\<close>

definition showTenths :: "int \<Rightarrow> string" where
  "showTenths t =
     (if t < 0 then ''-'' else []) @ showNat (nat \<bar>t\<bar> div 10) @
     (if nat \<bar>t\<bar> mod 10 = 0 then [] else ''.'' @ [digitChar (nat \<bar>t\<bar> mod 10)])"

text \<open>
  \<^verbatim>\<open>M${x - b},${y - b}h${rectW + b * 2}v${rectH + b * 2}h-${rectW + b * 2}z\<close>
\<close>

definition rectCommand :: "nat \<Rightarrow> nat \<Rightarrow> nat \<Rightarrow> nat \<Rightarrow> string" where
  "rectCommand x y rectW rectH =
     ''M'' @ showTenths (10 * int x - 2) @ '','' @ showTenths (10 * int y - 2) @
     ''h'' @ showTenths (10 * int rectW + 4) @
     ''v'' @ showTenths (10 * int rectH + 4) @
     ''h-'' @ showTenths (10 * int rectW + 4) @ ''z''"

subsection \<open>Region grower\<close>

text \<open>
  The horizontal loop:
  \<^verbatim>\<open>while (x + rectW < targetWidth && !visited[idx + rectW] &&
         isColorSimilar(color, data[idx + rectW], options.tolerance)) rectW++;\<close>
\<close>

function growWidth ::
  "pixel_buffer \<Rightarrow> bool list \<Rightarrow> int \<Rightarrow> nat \<Rightarrow> nat \<Rightarrow> color \<Rightarrow> nat \<Rightarrow> nat" where
  "growWidth buf vis tol x idx color rectW =
     (if x + rectW < targetWidth buf \<and> \<not> visited_at vis (idx + rectW)
         \<and> isColorSimilar color (data_at (data buf) (idx + rectW)) tol
      then growWidth buf vis tol x idx color (Suc rectW)
      else rectW)"
  by pat_completeness auto
termination
  by (relation "measure (\<lambda>(buf, vis, tol, x, idx, color, rectW). targetWidth buf - (x + rectW))")
    auto

declare growWidth.simps [simp del]

text \<open>
  The inner loop of the vertical growth, over \<^verbatim>\<open>dw\<close>, which breaks at the first cell
  that is visited or not similar. The result is the value of \<^verbatim>\<open>canExpand\<close> after it.
\<close>

function rowExpandable ::
  "pixel_buffer \<Rightarrow> bool list \<Rightarrow> int \<Rightarrow> nat \<Rightarrow> nat \<Rightarrow> color \<Rightarrow> nat \<Rightarrow> nat \<Rightarrow> nat \<Rightarrow> bool" where
  "rowExpandable buf vis tol x y color rectW rectH dw =
     (if dw < rectW then
        (let checkIdx = (y + rectH) * targetWidth buf + (x + dw)
         in if visited_at vis checkIdx
               \<or> \<not> isColorSimilar color (data_at (data buf) checkIdx) tol
            then False
            else rowExpandable buf vis tol x y color rectW rectH (Suc dw))
      else True)"
  by pat_completeness auto
termination
  by (relation "measure (\<lambda>(buf, vis, tol, x, y, color, rectW, rectH, dw). rectW - dw)") auto

declare rowExpandable.simps [simp del]

text \<open>
  The vertical loop: \<^verbatim>\<open>while (canExpand && y + rectH < targetHeight)\<close>, one candidate
  row per iteration.
\<close>

function growHeight ::
  "pixel_buffer \<Rightarrow> bool list \<Rightarrow> int \<Rightarrow> nat \<Rightarrow> nat \<Rightarrow> color \<Rightarrow> nat \<Rightarrow> nat \<Rightarrow> nat" where
  "growHeight buf vis tol x y color rectW rectH =
     (if y + rectH < targetHeight buf then
        (if rowExpandable buf vis tol x y color rectW rectH 0
         then growHeight buf vis tol x y color rectW (Suc rectH)
         else rectH)
      else rectH)"
  by pat_completeness auto
termination
  by (relation "measure (\<lambda>(buf, vis, tol, x, y, color, rectW, rectH). targetHeight buf - (y + rectH))")
    auto

declare growHeight.simps [simp del]

text \<open>
  Commit and mark: the body of the two nested loops over \<^verbatim>\<open>vY\<close> and \<^verbatim>\<open>vX\<close>, on the
  pair of the mask and the counter \<^verbatim>\<open>processed\<close>.
\<close>

definition markCell :: "nat \<Rightarrow> nat \<Rightarrow> nat \<Rightarrow> nat \<Rightarrow> nat \<Rightarrow> bool list \<times> nat \<Rightarrow> bool list \<times> nat" where
  "markCell w x y vY vX s =
     (let vIdx = (y + vY) * w + (x + vX)
      in if \<not> visited_at (fst s) vIdx then ((fst s)[vIdx := True], Suc (snd s)) else s)"

definition markRect ::
  "nat \<Rightarrow> nat \<Rightarrow> nat \<Rightarrow> nat \<Rightarrow> nat \<Rightarrow> bool list \<times> nat \<Rightarrow> bool list \<times> nat" where
  "markRect w x y rectW rectH s =
     for_loop 0 rectH (\<lambda>vY. for_loop 0 rectW (\<lambda>vX. markCell w x y vY vX)) s"

text \<open>
  \<^verbatim>\<open>if (!colorPaths.has(color)) colorPaths.set(color, []);
  colorPaths.get(color)!.push(cmd);\<close>
\<close>

definition pushPath :: "color \<Rightarrow> string \<Rightarrow> (color \<times> string list) list \<Rightarrow> (color \<times> string list) list" where
  "pushPath color cmd paths =
     (let paths' = (if map_of paths color = None then paths @ [(color, [])] else paths)
      in map (\<lambda>(k, ds). if k = color then (k, ds @ [cmd]) else (k, ds)) paths')"

text \<open>The body of the loop over \<^verbatim>\<open>x\<close>: one pixel of the row-major scan.\<close>

definition pixelStep :: "pixel_buffer \<Rightarrow> int \<Rightarrow> nat \<Rightarrow> nat \<Rightarrow> trace_state \<Rightarrow> trace_state" where
  "pixelStep buf tol y x st =
     (let idx = y * targetWidth buf + x
      in if visited_at (visited st) idx then st
         else
           let color = data_at (data buf) idx
           in if channel 24 color < 2
              then st\<lparr>visited := (visited st)[idx := True],
                      processed := Suc (processed st),
                      skippedPixels := skippedPixels st @ [(x, y)]\<rparr>
              else
                let rectW = growWidth buf (visited st) tol x idx color 0;
                    rectH = growHeight buf (visited st) tol x y color rectW 1;
                    marked = markRect (targetWidth buf) x y rectW rectH (visited st, processed st)
                in st\<lparr>visited := fst marked,
                        processed := snd marked,
                        colorPaths := pushPath color (rectCommand x y rectW rectH) (colorPaths st),
                        regionRects := regionRects st @
                          [\<lparr>rx = x, ry = y, rw = rectW, rh = rectH, colorKey = color\<rparr>]\<rparr>)"

definition scanRow :: "pixel_buffer \<Rightarrow> int \<Rightarrow> nat \<Rightarrow> trace_state \<Rightarrow> trace_state" where
  "scanRow buf tol y st = for_loop 0 (targetWidth buf) (pixelStep buf tol y) st"

subsection \<open>Double-precision arithmetic\<close>

text \<open>
  JavaScript numbers are IEEE 754 doubles: the result of \<^verbatim>\<open>/\<close> and \<^verbatim>\<open>*\<close> is the exact
  result rounded to the nearest number with a 53-bit significand, ties to the even
  significand. The model rounds rationals that way. It does not bound the exponent: the
  quotients and products of the engine, on integers below \<open>2 ^ 53\<close>, are far from the
  overflow and underflow thresholds.
\<close>

definition pow2 :: "int \<Rightarrow> rat" where
  "pow2 e = (if 0 \<le> e then 2 ^ nat e else 1 / 2 ^ nat (- e))"

definition roundTiesEven :: "rat \<Rightarrow> int" where
  "roundTiesEven q =
     (let f = \<lfloor>q\<rfloor>; r = q - of_int f
      in if r < 1 / 2 then f else if 1 / 2 < r then f + 1 else if even f then f else f + 1)"

text \<open>The binary exponent \<open>e\<close> of a positive rational: \<open>2 ^ e \<le> q < 2 ^ (e + 1)\<close>.\<close>

definition binadeOf :: "rat \<Rightarrow> int" where
  "binadeOf q =
     (let e = bitlen (fst (quotient_of q)) - bitlen (snd (quotient_of q))
      in if q < pow2 e then e - 1 else e)"

definition roundDouble :: "rat \<Rightarrow> rat" where
  "roundDouble q =
     (if q = 0 then 0
      else let u = pow2 (binadeOf \<bar>q\<bar> - 52)
           in sgn q * of_int (roundTiesEven (\<bar>q\<bar> / u)) * u)"

text \<open>
  A quotient of two non-negative integers: finite, or \<^verbatim>\<open>Infinity\<close> (a positive number
  divided by 0), or \<^verbatim>\<open>NaN\<close> (0 divided by 0).
\<close>

datatype js_number = Finite rat | PosInfinity | NotANumber

definition jsDivide :: "nat \<Rightarrow> nat \<Rightarrow> js_number" where
  "jsDivide a b =
     (if b \<noteq> 0 then Finite (roundDouble (of_nat a / of_nat b))
      else if a = 0 then NotANumber else PosInfinity)"

text \<open>\<^verbatim>\<open>Math.min(p, q)\<close>: \<^verbatim>\<open>NaN\<close> if either argument is.\<close>

fun jsMin :: "js_number \<Rightarrow> js_number \<Rightarrow> js_number" where
  "jsMin NotANumber _ = NotANumber"
| "jsMin _ NotANumber = NotANumber"
| "jsMin PosInfinity q = q"
| "jsMin p PosInfinity = p"
| "jsMin (Finite a) (Finite b) = Finite (min a b)"

subsection \<open>Target dimensions\<close>

text \<open>
  The options, typed as the specification types them: an integer tolerance and natural
  numbers for the bounding box and the super-sampling factor.
\<close>

record vector_options =
  tolerance :: int
  maxWidth :: nat
  maxHeight :: nat
  superSample :: nat

text \<open>
  \<^verbatim>\<open>Math.min(options.maxWidth / img.width, options.maxHeight / img.height, 1)\<close>
\<close>

definition scaleOf :: "vector_options \<Rightarrow> nat \<Rightarrow> nat \<Rightarrow> js_number" where
  "scaleOf options imgWidth imgHeight =
     jsMin (jsDivide (maxWidth options) imgWidth)
       (jsMin (jsDivide (maxHeight options) imgHeight) (Finite 1))"

text \<open>
  \<^verbatim>\<open>Math.floor(img.width * scale * options.superSample)\<close>, two rounded products from
  left to right. \<open>None\<close> is \<^verbatim>\<open>NaN\<close>. (\<open>jsMin\<close> with \<open>Finite 1\<close> is never infinite.)
\<close>

definition targetSize :: "js_number \<Rightarrow> nat \<Rightarrow> nat \<Rightarrow> nat option" where
  "targetSize scale imgSize ss =
     (case scale of
        Finite s \<Rightarrow>
          Some (nat \<lfloor>roundDouble (roundDouble (of_nat imgSize * s) * of_nat ss)\<rfloor>)
      | _ \<Rightarrow> None)"

subsection \<open>Batch scheduler\<close>

definition BATCH_ROWS :: nat where
  "BATCH_ROWS = 25"

text \<open>
  \<^verbatim>\<open>Math.floor((processed / total) * 100)\<close>, in double arithmetic. With \<^verbatim>\<open>total\<close> 0
  the quotient is not a finite number, and neither is the result.
\<close>

definition progressPercent :: "nat \<Rightarrow> nat \<Rightarrow> int option" where
  "progressPercent done totalPixels =
     (case jsDivide done totalPixels of
        Finite q \<Rightarrow> Some \<lfloor>roundDouble (q * 100)\<rfloor>
      | _ \<Rightarrow> None)"

text \<open>
  The loop over \<^verbatim>\<open>batchY\<close>, in steps of \<^verbatim>\<open>BATCH_ROWS\<close>. After the rows of a batch the
  callback is called once; the suspension that follows (\<^verbatim>\<open>setTimeout\<close>) changes nothing
  of the state, which no other code can reach.
\<close>

function runBatches :: "pixel_buffer \<Rightarrow> int \<Rightarrow> nat \<Rightarrow> trace_state \<Rightarrow> trace_state" where
  "runBatches buf tol batchY st =
     (if batchY < targetHeight buf then
        (let endY = min (batchY + BATCH_ROWS) (targetHeight buf);
             st1 = for_loop batchY endY (scanRow buf tol) st;
             st2 = st1\<lparr>progressLog := progressLog st1 @
                     [progressPercent (processed st1) (targetWidth buf * targetHeight buf)]\<rparr>
         in runBatches buf tol (batchY + BATCH_ROWS) st2)
      else st)"
  by pat_completeness auto
termination
  by (relation "measure (\<lambda>(buf, tol, batchY, st). targetHeight buf - batchY)")
    (auto simp: BATCH_ROWS_def)

declare runBatches.simps [simp del]

definition initialState :: "pixel_buffer \<Rightarrow> trace_state" where
  "initialState buf =
     \<lparr>visited = replicate (targetWidth buf * targetHeight buf) False,
      processed = 0,
      colorPaths = [],
      regionRects = [],
      skippedPixels = [],
      progressLog = []\<rparr>"

definition growPhase :: "pixel_buffer \<Rightarrow> int \<Rightarrow> trace_state" where
  "growPhase buf tol = runBatches buf tol 0 (initialState buf)"

subsection \<open>Document serializer\<close>

definition dq :: string where
  "dq = [CHR 0x22]"

definition nl :: string where
  "nl = [CHR 0x0A]"

text \<open>
  \<^verbatim>\<open>(alpha / 255).toFixed(4)\<close>: the nearest multiple of 0.0001, printed with four
  decimals. No quotient \<open>alpha / 255\<close> lies halfway between two such multiples, nor
  within rounding error of it, so the exact quotient decides.
\<close>

definition toFixed4 :: "int \<Rightarrow> string" where
  "toFixed4 alpha =
     (let n = nat ((alpha * 20000 + 255) div 510)
      in showNat (n div 10000) @ ''.'' @
         [digitChar (n div 1000 mod 10), digitChar (n div 100 mod 10),
          digitChar (n div 10 mod 10), digitChar (n mod 10)])"

definition rgbaString :: "color \<Rightarrow> string" where
  "rgbaString color =
     (let r = lowByte color;
          g = channel 8 color;
          b = channel 16 color
      in ''rgba('' @ showNat (nat r) @ '','' @ showNat (nat g) @ '','' @ showNat (nat b) @ '','' @
         toFixed4 (channel 24 color) @ '')'')"

definition pathElement :: "color \<times> string list \<Rightarrow> string" where
  "pathElement entry =
     (let rgba = rgbaString (fst entry)
      in ''<path d='' @ dq @ concat (snd entry) @ dq @
         '' fill='' @ dq @ rgba @ dq @
         '' stroke='' @ dq @ rgba @ dq @
         '' stroke-width='' @ dq @ ''0.5'' @ dq @
         '' stroke-linejoin='' @ dq @ ''round'' @ dq @ '' />'')"

definition svgOpen :: "nat \<Rightarrow> nat \<Rightarrow> string" where
  "svgOpen w h =
     ''<svg '' @ nl @
     ''    xmlns='' @ dq @ ''http://www.w3.org/2000/svg'' @ dq @ '' '' @ nl @
     ''    viewBox='' @ dq @ ''0 0 '' @ showNat w @ '' '' @ showNat h @ dq @ '' '' @ nl @
     ''    width='' @ dq @ showNat w @ dq @ '' '' @ nl @
     ''    height='' @ dq @ showNat h @ dq @ nl @
     ''    shape-rendering='' @ dq @ ''crispEdges'' @ dq @ nl @
     ''    style='' @ dq @
     ''background:transparent; display:block; image-rendering: -webkit-optimize-contrast; pointer-events: none;''
     @ dq @ nl @
     ''  >'' @ nl @ ''    ''"

definition svgClose :: string where
  "svgClose = nl @ ''  </svg>''"

definition svgDocument :: "nat \<Rightarrow> nat \<Rightarrow> (color \<times> string list) list \<Rightarrow> string" where
  "svgDocument w h paths = svgOpen w h @ concat (map pathElement paths) @ svgClose"

subsection \<open>The entry point\<close>

text \<open>
  What the browser contributes to one call: whether the image loads (and then its
  width and height), whether the canvas gives a 2D context, and the pixels that
  \<^verbatim>\<open>drawImage\<close> and \<^verbatim>\<open>getImageData\<close> deliver at a given target size.
\<close>

record environment =
  imageLoad :: "(nat \<times> nat) option"
  context2d :: bool
  rasterize :: "nat \<Rightarrow> nat \<Rightarrow> color list"

text \<open>
  \<open>LoadError\<close>: the promise on \<^verbatim>\<open>img.onerror\<close> rejects. \<open>RuntimeError\<close>: the thrown
  \<^verbatim>\<open>Error("Canvas initialization failed")\<close>. \<open>IndexSizeError\<close>: \<^verbatim>\<open>getImageData\<close>
  throws it for a width or height of 0 (a \<^verbatim>\<open>NaN\<close> dimension is converted to 0).
\<close>

datatype trace_error = LoadError | RuntimeError | IndexSizeError

text \<open>The result of the call and the values passed to \<^verbatim>\<open>onProgress\<close> during it.\<close>

definition traceImageToSVG ::
  "environment \<Rightarrow> vector_options \<Rightarrow> (trace_error + string) \<times> int option list" where
  "traceImageToSVG env options =
     (case imageLoad env of
        None \<Rightarrow> (Inl LoadError, [])
      | Some (imgWidth, imgHeight) \<Rightarrow>
          let scale = scaleOf options imgWidth imgHeight;
              tw = targetSize scale imgWidth (superSample options);
              th = targetSize scale imgHeight (superSample options)
          in if \<not> context2d env then (Inl RuntimeError, [])
             else
               (case (tw, th) of
                  (Some w, Some h) \<Rightarrow>
                    if w = 0 \<or> h = 0 then (Inl IndexSizeError, [])
                    else
                      let buf = \<lparr>targetWidth = w, targetHeight = h, data = rasterize env w h\<rparr>;
                          st = growPhase buf (tolerance options)
                      in (Inr (svgDocument w h (colorPaths st)), progressLog st)
                | _ \<Rightarrow> (Inl IndexSizeError, [])))"

section \<open>Notions used to state the properties\<close>

text \<open>
  A cell qualifies for the rectangle growing from an anchor of color \<open>color\<close> when it
  is unvisited and similar to the anchor: the condition both growth loops test.
\<close>

definition cellFree :: "pixel_buffer \<Rightarrow> bool list \<Rightarrow> int \<Rightarrow> color \<Rightarrow> nat \<Rightarrow> bool" where
  "cellFree buf vis tol color i =
     (\<not> visited_at vis i \<and> isColorSimilar color (data_at (data buf) i) tol)"

text \<open>The pixels of a rectangle, as (column, row) pairs, row by row.\<close>

definition rectCells :: "region_rect \<Rightarrow> (nat \<times> nat) list" where
  "rectCells r =
     map (\<lambda>(dy, dx). (rx r + dx, ry r + dy)) (List.product [0..<rh r] [0..<rw r])"

text \<open>Every pixel that a committed rectangle covers, and every skipped pixel.\<close>

definition coveredCells :: "trace_state \<Rightarrow> (nat \<times> nat) list" where
  "coveredCells st = concat (map rectCells (regionRects st)) @ skippedPixels st"

definition gridCells :: "pixel_buffer \<Rightarrow> (nat \<times> nat) set" where
  "gridCells buf = {0..<targetWidth buf} \<times> {0..<targetHeight buf}"

text \<open>
  The invariant of the scan: the mask has one entry per pixel, the covered cells are
  pairwise different cells of the grid, a cell is marked exactly when it is covered, and
  \<^verbatim>\<open>processed\<close> counts the covered cells.
\<close>

definition traceInv :: "pixel_buffer \<Rightarrow> trace_state \<Rightarrow> bool" where
  "traceInv buf st =
     (length (visited st) = targetWidth buf * targetHeight buf
      \<and> distinct (coveredCells st)
      \<and> set (coveredCells st) \<subseteq> gridCells buf
      \<and> (\<forall>px<targetWidth buf. \<forall>py.
            visited_at (visited st) (py * targetWidth buf + px) = ((px, py) \<in> set (coveredCells st)))
      \<and> processed st = length (coveredCells st))"

text \<open>
  A state in which every pixel is marked: the scan can only add to the progress log.
\<close>

definition settled :: "pixel_buffer \<Rightarrow> region_rect list \<Rightarrow> (color \<times> string list) list \<Rightarrow>
    (nat \<times> nat) list \<Rightarrow> trace_state \<Rightarrow> bool" where
  "settled buf rs ps sk st =
     (regionRects st = rs \<and> colorPaths st = ps \<and> skippedPixels st = sk \<and>
      (\<forall>px<targetWidth buf. \<forall>py<targetHeight buf.
         visited_at (visited st) (py * targetWidth buf + px)))"

subsection \<open>The document as the specification describes it\<close>

text \<open>The distinct elements of a list, in the order of their first occurrence.\<close>

definition firstOccurrences :: "'a list \<Rightarrow> 'a list" where
  "firstOccurrences xs = rev (remdups (rev xs))"

text \<open>
  The decimal text of a rational number that has at most one decimal digit: a minus sign
  if it is negative, its integer part, and the decimal digit if that is not 0.
\<close>

definition decimalText :: "rat \<Rightarrow> string" where
  "decimalText q =
     (if q < 0 then ''-'' else []) @ showNat (nat \<lfloor>\<bar>q\<bar>\<rfloor>) @
     (let d = nat (\<lfloor>\<bar>q\<bar> * 10\<rfloor> mod 10) in if d = 0 then [] else ''.'' @ [digitChar d])"

text \<open>
  The text of a non-negative rational number with exactly four decimal digits: the nearest
  multiple of 1/10000 (a half rounds up), its integer part, a point, and the four digits.
\<close>

definition fractionText :: "rat \<Rightarrow> string" where
  "fractionText q =
     (let n = nat \<lfloor>q * 10000 + 1 / 2\<rfloor>;
          m = n mod 10000
      in showNat (n div 10000) @ ''.'' @
         replicate (4 - length (showNat m)) (CHR ''0'') @ showNat m)"

text \<open>
  The bled rectangle command of a committed rectangle: the rectangle moved by 1/5 up and
  to the left and made 2/5 wider and taller, as a move to its corner, a horizontal line,
  a vertical line, the horizontal line back, and the closing of the path.
\<close>

definition bledCommand :: "region_rect \<Rightarrow> string" where
  "bledCommand r =
     ''M'' @ decimalText (of_nat (rx r) - 1 / 5) @ '','' @ decimalText (of_nat (ry r) - 1 / 5) @
     ''h'' @ decimalText (of_nat (rw r) + 2 / 5) @
     ''v'' @ decimalText (of_nat (rh r) + 2 / 5) @
     ''h-'' @ decimalText (of_nat (rw r) + 2 / 5) @ ''z''"

text \<open>
  The RGBA value of a color key: the red, green and blue fields and the alpha field as a
  fraction of 255, with four decimal digits.
\<close>

definition specRgba :: "color \<Rightarrow> string" where
  "specRgba c =
     ''rgba('' @ showNat (nat (redOf c)) @ '','' @ showNat (nat (greenOf c)) @ '','' @
     showNat (nat (blueOf c)) @ '','' @ fractionText (of_int (alphaOf c) / 255) @ '')''"

text \<open>
  One shape element for a color key: the commands of the rectangles committed under that
  key, in commit order, concatenated; fill and stroke of that color; stroke width 0.5
  with round joins.
\<close>

definition specShape :: "region_rect list \<Rightarrow> color \<Rightarrow> string" where
  "specShape rs c =
     ''<path d='' @ [CHR 0x22] @
       concat (map bledCommand (filter (\<lambda>r. colorKey r = c) rs)) @ [CHR 0x22] @
     '' fill='' @ [CHR 0x22] @ specRgba c @ [CHR 0x22] @
     '' stroke='' @ [CHR 0x22] @ specRgba c @ [CHR 0x22] @
     '' stroke-width='' @ [CHR 0x22] @ ''0.5'' @ [CHR 0x22] @
     '' stroke-linejoin='' @ [CHR 0x22] @ ''round'' @ [CHR 0x22] @ '' />''"

text \<open>One shape per distinct color key, in first-occurrence order.\<close>

definition specShapes :: "region_rect list \<Rightarrow> string list" where
  "specShapes rs = map (specShape rs) (firstOccurrences (map colorKey rs))"

text \<open>The path groups that the commit log determines.\<close>

definition groupByColor :: "region_rect list \<Rightarrow> (color \<times> string list) list" where
  "groupByColor rs =
     map (\<lambda>c. (c, map bledCommand (filter (\<lambda>r. colorKey r = c) rs)))
       (firstOccurrences (map colorKey rs))"

subsection \<open>Progress as the specification describes it\<close>

text \<open>The trace state after the first \<open>n\<close> rows have been scanned, with no report made.\<close>

definition rowsDone :: "pixel_buffer \<Rightarrow> int \<Rightarrow> nat \<Rightarrow> trace_state" where
  "rowsDone buf tol n = for_loop 0 n (scanRow buf tol) (initialState buf)"

text \<open>The number of batches of \<open>BATCH_ROWS\<close> rows in \<open>h\<close> rows, the last one possibly short.\<close>

definition batchCount :: "nat \<Rightarrow> nat" where
  "batchCount h = (h + (BATCH_ROWS - 1)) div BATCH_ROWS"

text \<open>
  The value reported after batch \<open>k\<close> (counted from 0): the percentage of the pixels
  processed once the rows of batches 0 to \<open>k\<close> have been scanned.
\<close>

definition reportAfterBatch :: "pixel_buffer \<Rightarrow> int \<Rightarrow> nat \<Rightarrow> int option" where
  "reportAfterBatch buf tol k =
     progressPercent
       (processed (rowsDone buf tol (min ((k + 1) * BATCH_ROWS) (targetHeight buf))))
       (targetWidth buf * targetHeight buf)"

subsection \<open>Small buffers on which the properties are evaluated\<close>

text \<open>
  Two columns, three rows. The left column has one color; the top right pixel differs
  from it by 1 in the red channel, the other right pixels by much more.
\<close>

definition stripesBuffer :: pixel_buffer where
  "stripesBuffer =
     \<lparr>targetWidth = 2, targetHeight = 3,
      data = [0xFF000010, 0xFF000011,
              0xFF000010, 0xFF0000FF,
              0xFF000010, 0xFF0000FF]\<rparr>"

text \<open>One row: an opaque red pixel, then a fully transparent black one.\<close>

definition overlayBuffer :: pixel_buffer where
  "overlayBuffer = \<lparr>targetWidth = 2, targetHeight = 1, data = [0xFF0000FF, 0x00000000]\<rparr>"

text \<open>One row: two pixels with alpha 0 and alpha 1 and unrelated colors.\<close>

definition clearBuffer :: pixel_buffer where
  "clearBuffer = \<lparr>targetWidth = 2, targetHeight = 1, data = [0x00112233, 0x01445566]\<rparr>"

text \<open>Three columns, two rows, one opaque color.\<close>

definition uniformBuffer :: pixel_buffer where
  "uniformBuffer = \<lparr>targetWidth = 3, targetHeight = 2, data = replicate 6 0xFF336699\<rparr>"

text \<open>One row: a pixel of alpha 2, then a pixel of alpha 1 with the same color channels.\<close>

definition faintBuffer :: pixel_buffer where
  "faintBuffer = \<lparr>targetWidth = 2, targetHeight = 1, data = [0x02000000, 0x01000000]\<rparr>"

text \<open>
  One column, thirty rows: twenty-four rows alternating between two colors, five rows of
  a third color, one row of a fourth. The five equal rows start in the first batch of 25
  rows and end in the second.
\<close>

definition tallBuffer :: pixel_buffer where
  "tallBuffer =
     \<lparr>targetWidth = 1, targetHeight = 30,
      data = concat (replicate 12 [0xFF000000, 0xFFFFFFFF]) @ replicate 5 0xFF0000FF @ [0xFF00FF00]\<rparr>"

text \<open>
  One column, fifty rows: as \<open>tallBuffer\<close>, with twenty-one more rows that alternate
  between two colors. After the first batch 29 of the 50 pixels are processed.
\<close>

definition stripBuffer :: pixel_buffer where
  "stripBuffer =
     \<lparr>targetWidth = 1, targetHeight = 50,
      data = concat (replicate 12 [0xFF000000, 0xFFFFFFFF]) @ replicate 5 0xFF0000FF @
             concat (replicate 10 [0xFF000000, 0xFFFFFFFF]) @ [0xFF000000]\<rparr>"

text \<open>
  Two columns, two rows, two colors on the diagonals: one half transparent with red 1,
  green 2 and blue 3, the other opaque red.
\<close>

definition duoBuffer :: pixel_buffer where
  "duoBuffer =
     \<lparr>targetWidth = 2, targetHeight = 2,
      data = [0x80030201, 0xFF0000FF, 0xFF0000FF, 0x80030201]\<rparr>"

text \<open>
  The default value of the \<^verbatim>\<open>options\<close> parameter, options with a bounding box of
  \<open>4\<times>4\<close>, and two browser environments: one delivers an \<open>8\<times>4\<close> image of one opaque
  color, the other a \<open>3\<times>2\<close> image of the same color.
\<close>

definition defaultOptions :: vector_options where
  "defaultOptions = \<lparr>tolerance = 1, maxWidth = 4096, maxHeight = 4096, superSample = 2\<rparr>"

definition smallBoxOptions :: vector_options where
  "smallBoxOptions = \<lparr>tolerance = 1, maxWidth = 4, maxHeight = 4, superSample = 2\<rparr>"

definition wideImage :: environment where
  "wideImage =
     \<lparr>imageLoad = Some (8, 4), context2d = True,
      rasterize = (\<lambda>w h. replicate (w * h) 0xFF336699)\<rparr>"

definition smallImage :: environment where
  "smallImage =
     \<lparr>imageLoad = Some (3, 2), context2d = True,
      rasterize = (\<lambda>w h. replicate (w * h) 0xFF336699)\<rparr>"

section \<open>Properties\<close>

subsection \<open>Channel extraction\<close>

lemma and_ff_take: "(w::color) AND 0xff = take_bit 8 w"
proof -
  have "(255::color) = mask 8" by (simp add: mask_eq_exp_minus_1)
  then show ?thesis by (simp add: take_bit_eq_mask)
qed

lemma take8_signed_drop:
  assumes "k \<le> 24"
  shows "take_bit 8 (signed_drop_bit k (c::color)) = take_bit 8 (drop_bit k c)"
proof (rule bit_word_eqI)
  fix n assume "n < LENGTH(32)"
  show "bit (take_bit 8 (signed_drop_bit k c)) n = bit (take_bit 8 (drop_bit k c)) n"
    using assms by (auto simp add: bit_take_bit_iff bit_signed_drop_bit_iff bit_drop_bit_eq)
qed

lemma sint_take8: "sint (take_bit 8 (w::color)) = uint w mod 256"
proof -
  have u: "uint (take_bit 8 w) = uint w mod 256"
    unfolding unsigned_take_bit_eq by (simp add: take_bit_eq_mod)
  have "0 \<le> uint w mod 256" "uint w mod 256 < 256" by simp_all
  then have "- (2 ^ 31) \<le> uint w mod 256" "uint w mod 256 < 2 ^ 31" by simp_all
  then have "signed_take_bit 31 (uint w mod 256) = uint w mod 256"
    by (rule signed_take_bit_int_eq_self)
  then show ?thesis by (simp add: sint_uint u)
qed

lemma uint_drop: "uint (drop_bit k (c::color)) = uint c div 2 ^ k"
proof -
  have "take_bit 32 (uint c) = uint c"
    using take_bit_length_eq [of c] unsigned_take_bit_eq [of 32 c, where ?'a = int] by simp
  then show ?thesis
    unfolding unsigned_drop_bit_eq by (simp add: drop_bit_eq_div)
qed

lemma channel_eq: "k \<le> 24 \<Longrightarrow> channel k c = (uint c div 2 ^ k) mod 256"
  unfolding channel_def and_ff_take
  by (simp add: take8_signed_drop sint_take8 uint_drop)

lemma channel_24: "channel 24 c = alphaOf c"
  by (simp add: channel_eq alphaOf_def)

lemma channel_16: "channel 16 c = blueOf c"
  by (simp add: channel_eq blueOf_def)

lemma channel_8: "channel 8 c = greenOf c"
  by (simp add: channel_eq greenOf_def)

lemma lowByte_eq: "lowByte c = redOf c"
  by (simp add: lowByte_def and_ff_take sint_take8 redOf_def)

lemma alphaOf_range: "0 \<le> alphaOf c \<and> alphaOf c < 256"
  by (simp add: alphaOf_def)

text \<open>
  Claim C2. For all 32-bit colors and every tolerance, \<^const>\<open>isColorSimilar\<close> is true
  exactly when the two colors are equal, or both alpha channels are below 2, or the alpha
  channels and each of the red, green and blue channels differ by at most the tolerance.
  The function is defined on every pair of 32-bit values (it is a total HOL function of
  its three arguments and reads nothing else).
\<close>

theorem isColorSimilar_spec:
  "isColorSimilar c1 c2 tol =
     (c1 = c2
      \<or> (alphaOf c1 < 2 \<and> alphaOf c2 < 2)
      \<or> (\<bar>alphaOf c1 - alphaOf c2\<bar> \<le> tol
          \<and> \<bar>redOf c1 - redOf c2\<bar> \<le> tol
          \<and> \<bar>greenOf c1 - greenOf c2\<bar> \<le> tol
          \<and> \<bar>blueOf c1 - blueOf c2\<bar> \<le> tol))"
  unfolding isColorSimilar_def Let_def channel_24 channel_16 channel_8 lowByte_eq
  by auto

subsection \<open>Loops and growth\<close>

lemma for_loop_done: "n \<le> i \<Longrightarrow> for_loop i n body s = s"
  by (simp add: for_loop.simps)

lemma for_loop_step: "i < n \<Longrightarrow> for_loop i n body s = for_loop (Suc i) n body (body i s)"
  by (subst for_loop.simps) simp

lemma for_loop_rule:
  assumes "P i s" and "i \<le> n"
    and "\<And>j t. i \<le> j \<Longrightarrow> j < n \<Longrightarrow> P j t \<Longrightarrow> P (Suc j) (body j t)"
  shows "P n (for_loop i n body s)"
  using assms
proof (induction i n body s rule: for_loop.induct)
  case (1 i n body s)
  show ?case
  proof (cases "i < n")
    case True
    have "P (Suc i) (body i s)" using 1(2,4) True by simp
    moreover have "Suc i \<le> n" using True by simp
    moreover have "\<And>j t. Suc i \<le> j \<Longrightarrow> j < n \<Longrightarrow> P j t \<Longrightarrow> P (Suc j) (body j t)"
      using 1(4) by simp
    ultimately have "P n (for_loop (Suc i) n body (body i s))"
      using 1(1) [OF True] by blast
    then show ?thesis using True by (simp add: for_loop_step)
  next
    case False
    then have "i = n" using 1(3) by simp
    then show ?thesis using 1(2) by (simp add: for_loop_done)
  qed
qed

lemma growWidth_ge: "rectW \<le> growWidth buf vis tol x idx color rectW"
proof (induction buf vis tol x idx color rectW rule: growWidth.induct)
  case (1 buf vis tol x idx color rectW)
  show ?case
    using 1 by (subst growWidth.simps) (auto simp: Suc_leD)
qed

lemma growWidth_bound:
  "x + rectW \<le> targetWidth buf \<Longrightarrow> x + growWidth buf vis tol x idx color rectW \<le> targetWidth buf"
proof (induction buf vis tol x idx color rectW rule: growWidth.induct)
  case (1 buf vis tol x idx color rectW)
  show ?case
    using 1 by (subst growWidth.simps) auto
qed

lemma growWidth_free:
  "rectW \<le> dw \<Longrightarrow> dw < growWidth buf vis tol x idx color rectW \<Longrightarrow> cellFree buf vis tol color (idx + dw)"
proof (induction buf vis tol x idx color rectW rule: growWidth.induct)
  case (1 buf vis tol x idx color rectW)
  show ?case
  proof (cases "x + rectW < targetWidth buf \<and> cellFree buf vis tol color (idx + rectW)")
    case True
    then have eq: "growWidth buf vis tol x idx color rectW = growWidth buf vis tol x idx color (Suc rectW)"
      by (subst growWidth.simps) (simp add: cellFree_def)
    show ?thesis
    proof (cases "dw = rectW")
      case True
      with \<open>x + rectW < targetWidth buf \<and> cellFree buf vis tol color (idx + rectW)\<close> show ?thesis by simp
    next
      case False
      then have "Suc rectW \<le> dw" using 1(2) by simp
      then show ?thesis using 1(1) True 1(3) eq by (simp add: cellFree_def)
    qed
  next
    case False
    then have "growWidth buf vis tol x idx color rectW = rectW"
      by (subst growWidth.simps) (auto simp add: cellFree_def)
    then show ?thesis using 1(2,3) by simp
  qed
qed

lemma growWidth_maximal:
  "x + growWidth buf vis tol x idx color rectW < targetWidth buf \<Longrightarrow>
   \<not> cellFree buf vis tol color (idx + growWidth buf vis tol x idx color rectW)"
proof (induction buf vis tol x idx color rectW rule: growWidth.induct)
  case (1 buf vis tol x idx color rectW)
  show ?case
  proof (cases "x + rectW < targetWidth buf \<and> cellFree buf vis tol color (idx + rectW)")
    case True
    then have eq: "growWidth buf vis tol x idx color rectW = growWidth buf vis tol x idx color (Suc rectW)"
      by (subst growWidth.simps) (simp add: cellFree_def)
    show ?thesis using 1(1) True 1(2) unfolding eq by (simp add: cellFree_def)
  next
    case False
    then have eq: "growWidth buf vis tol x idx color rectW = rectW"
      by (subst growWidth.simps) (auto simp add: cellFree_def)
    show ?thesis using False 1(2) unfolding eq by simp
  qed
qed

lemma rowExpandable_iff:
  "rowExpandable buf vis tol x y color rectW rectH dw =
     (\<forall>d. dw \<le> d \<and> d < rectW \<longrightarrow> cellFree buf vis tol color ((y + rectH) * targetWidth buf + (x + d)))"
proof (induction buf vis tol x y color rectW rectH dw rule: rowExpandable.induct)
  case (1 buf vis tol x y color rectW rectH dw)
  show ?case
  proof (cases "dw < rectW")
    case True
    show ?thesis
    proof (cases "cellFree buf vis tol color ((y + rectH) * targetWidth buf + (x + dw))")
      case free: True
      then have "rowExpandable buf vis tol x y color rectW rectH dw = rowExpandable buf vis tol x y color rectW rectH (Suc dw)"
        using True by (subst rowExpandable.simps) (simp add: cellFree_def Let_def)
      also have "\<dots> = (\<forall>d. Suc dw \<le> d \<and> d < rectW \<longrightarrow> cellFree buf vis tol color ((y + rectH) * targetWidth buf + (x + d)))"
        using 1 [OF True refl] free by (simp add: cellFree_def)
      also have "\<dots> = (\<forall>d. dw \<le> d \<and> d < rectW \<longrightarrow> cellFree buf vis tol color ((y + rectH) * targetWidth buf + (x + d)))"
        using free by (metis Suc_leI le_neq_implies_less Suc_leD)
      finally show ?thesis .
    next
      case False
      then have "\<not> rowExpandable buf vis tol x y color rectW rectH dw"
        using True by (subst rowExpandable.simps) (auto simp add: cellFree_def Let_def)
      then show ?thesis using False True by auto
    qed
  next
    case False
    then have "rowExpandable buf vis tol x y color rectW rectH dw"
      by (subst rowExpandable.simps) simp
    then show ?thesis using False by auto
  qed
qed


lemma growHeight_unfold_True:
  "y + rectH < targetHeight buf \<Longrightarrow> rowExpandable buf vis tol x y color rectW rectH 0 \<Longrightarrow>
   growHeight buf vis tol x y color rectW rectH = growHeight buf vis tol x y color rectW (Suc rectH)"
  by (subst growHeight.simps) simp

lemma growHeight_unfold_False:
  "\<not> (y + rectH < targetHeight buf \<and> rowExpandable buf vis tol x y color rectW rectH 0) \<Longrightarrow>
   growHeight buf vis tol x y color rectW rectH = rectH"
  by (subst growHeight.simps) auto

lemma growHeight_ge: "rectH \<le> growHeight buf vis tol x y color rectW rectH"
proof (induction buf vis tol x y color rectW rectH rule: growHeight.induct)
  case (1 buf vis tol x y color rectW rectH)
  show ?case
  proof (cases "y + rectH < targetHeight buf \<and> rowExpandable buf vis tol x y color rectW rectH 0")
    case True
    then have "Suc rectH \<le> growHeight buf vis tol x y color rectW (Suc rectH)"
      using 1 by blast
    then show ?thesis using True by (simp add: growHeight_unfold_True)
  next
    case False
    then show ?thesis using growHeight_unfold_False [OF False] by simp
  qed
qed

lemma growHeight_bound:
  "y + rectH \<le> targetHeight buf \<Longrightarrow>
   y + growHeight buf vis tol x y color rectW rectH \<le> targetHeight buf"
proof (induction buf vis tol x y color rectW rectH rule: growHeight.induct)
  case (1 buf vis tol x y color rectW rectH)
  show ?case
  proof (cases "y + rectH < targetHeight buf \<and> rowExpandable buf vis tol x y color rectW rectH 0")
    case True
    then have "y + growHeight buf vis tol x y color rectW (Suc rectH) \<le> targetHeight buf"
      using 1(1) by simp
    then show ?thesis using True by (simp add: growHeight_unfold_True)
  next
    case False
    then show ?thesis using 1(2) growHeight_unfold_False [OF False] by simp
  qed
qed

lemma growHeight_rows:
  "rectH \<le> dh \<Longrightarrow> dh < growHeight buf vis tol x y color rectW rectH \<Longrightarrow>
   rowExpandable buf vis tol x y color rectW dh 0"
proof (induction buf vis tol x y color rectW rectH rule: growHeight.induct)
  case (1 buf vis tol x y color rectW rectH)
  show ?case
  proof (cases "y + rectH < targetHeight buf \<and> rowExpandable buf vis tol x y color rectW rectH 0")
    case True
    then have eq: "growHeight buf vis tol x y color rectW rectH =
        growHeight buf vis tol x y color rectW (Suc rectH)"
      by (simp add: growHeight_unfold_True)
    show ?thesis
    proof (cases "dh = rectH")
      case same: True
      with True show ?thesis by simp
    next
      case False
      then have "Suc rectH \<le> dh" using 1(2) by simp
      then show ?thesis using 1(1) True 1(3) eq by simp
    qed
  next
    case False
    then have "growHeight buf vis tol x y color rectW rectH = rectH"
      by (rule growHeight_unfold_False)
    then show ?thesis using 1(2,3) by simp
  qed
qed

lemma growHeight_maximal:
  "y + growHeight buf vis tol x y color rectW rectH < targetHeight buf \<Longrightarrow>
   \<not> rowExpandable buf vis tol x y color rectW (growHeight buf vis tol x y color rectW rectH) 0"
proof (induction buf vis tol x y color rectW rectH rule: growHeight.induct)
  case (1 buf vis tol x y color rectW rectH)
  show ?case
  proof (cases "y + rectH < targetHeight buf \<and> rowExpandable buf vis tol x y color rectW rectH 0")
    case True
    then have eq: "growHeight buf vis tol x y color rectW rectH =
        growHeight buf vis tol x y color rectW (Suc rectH)"
      by (simp add: growHeight_unfold_True)
    show ?thesis using 1(1) True 1(2) unfolding eq by simp
  next
    case False
    then have eq: "growHeight buf vis tol x y color rectW rectH = rectH"
      by (rule growHeight_unfold_False)
    show ?thesis using False 1(2) unfolding eq by simp
  qed
qed

subsection \<open>Row-major indices\<close>

lemma idx_less: "px < w \<Longrightarrow> py < h \<Longrightarrow> py * w + px < w * (h::nat)"
proof -
  assume a: "px < w" "py < h"
  have "py * w + px < py * w + w" using a by simp
  also have "\<dots> = Suc py * w" by simp
  also have "\<dots> \<le> h * w" using a(2) by (intro mult_le_mono1) simp
  finally show ?thesis by (simp add: mult.commute)
qed

lemma idx_inj:
  assumes "px < w" "cx < (w::nat)"
  shows "(py * w + px = cy * w + cx) = (px = cx \<and> py = cy)"
proof
  assume e: "py * w + px = cy * w + cx"
  have "(py * w + px) mod w = px" "(cy * w + cx) mod w = cx" using assms by simp_all
  then have x: "px = cx" using e by simp
  have "(py * w + px) div w = py" "(cy * w + cx) div w = cy" using assms by simp_all
  then have "py = cy" using e by simp
  with x show "px = cx \<and> py = cy" by simp
qed simp

lemma visited_at_update:
  assumes "px < w" "cx < w" "cy * w + cx < length vis"
  shows "visited_at (vis[cy * w + cx := True]) (py * w + px) =
         (visited_at vis (py * w + px) \<or> (px = cx \<and> py = cy))"
  using assms idx_inj [OF assms(1,2), of py cy]
  by (auto simp add: visited_at_def nth_list_update)

subsection \<open>Commit and mark\<close>

lemma markCell_free:
  assumes "\<not> visited_at (fst s) ((y + vY) * w + (x + vX))"
  shows "markCell w x y vY vX s = ((fst s)[(y + vY) * w + (x + vX) := True], Suc (snd s))"
  using assms by (simp add: markCell_def Let_def)

lemma markRow:
  fixes p :: nat
  assumes len: "length vis = w * h" and bx: "x + rectW \<le> w" and yb: "y + vY < h"
    and free: "\<forall>dx<rectW. \<not> visited_at vis ((y + vY) * w + (x + dx))"
  defines "r \<equiv> for_loop 0 rectW (\<lambda>vX. markCell w x y vY vX) (vis, p)"
  shows "length (fst r) = w * h \<and> snd r = p + rectW \<and>
         (\<forall>px<w. \<forall>py. visited_at (fst r) (py * w + px) =
            (visited_at vis (py * w + px) \<or> (py = y + vY \<and> x \<le> px \<and> px < x + rectW)))"
proof -
  let ?P = "\<lambda>j s. length (fst s) = w * h \<and> snd s = p + j \<and>
         (\<forall>px<w. \<forall>py. visited_at (fst s) (py * w + px) =
            (visited_at vis (py * w + px) \<or> (py = y + vY \<and> x \<le> px \<and> px < x + j)))"
  have "?P rectW (for_loop 0 rectW (\<lambda>vX. markCell w x y vY vX) (vis, p))"
  proof (rule for_loop_rule [where P = ?P])
    show "?P 0 (vis, p)" using len by auto
    show "0 \<le> rectW" by simp
  next
    fix j t assume j: "0 \<le> j" "j < rectW" and t: "?P j t"
    have cx: "x + j < w" using j bx by simp
    have inr: "(y + vY) * w + (x + j) < length (fst t)"
      using t idx_less [OF cx yb] by simp
    have "visited_at (fst t) ((y + vY) * w + (x + j)) = visited_at vis ((y + vY) * w + (x + j))"
      using t cx by simp
    then have nv: "\<not> visited_at (fst t) ((y + vY) * w + (x + j))"
      using free j by simp
    have eq: "markCell w x y vY j t = ((fst t)[(y + vY) * w + (x + j) := True], Suc (snd t))"
      by (rule markCell_free [OF nv])
    have "\<forall>px<w. \<forall>py. visited_at (fst (markCell w x y vY j t)) (py * w + px) =
            (visited_at vis (py * w + px) \<or> (py = y + vY \<and> x \<le> px \<and> px < x + Suc j))"
    proof (intro allI impI)
      fix px py assume px: "px < w"
      have "visited_at ((fst t)[(y + vY) * w + (x + j) := True]) (py * w + px) =
            (visited_at (fst t) (py * w + px) \<or> (px = x + j \<and> py = y + vY))"
        by (rule visited_at_update [OF px cx inr])
      also have "\<dots> = ((visited_at vis (py * w + px) \<or> (py = y + vY \<and> x \<le> px \<and> px < x + j))
                        \<or> (px = x + j \<and> py = y + vY))"
        using t px by simp
      also have "\<dots> = (visited_at vis (py * w + px) \<or> (py = y + vY \<and> x \<le> px \<and> px < x + Suc j))"
        by auto
      finally show "visited_at (fst (markCell w x y vY j t)) (py * w + px) =
            (visited_at vis (py * w + px) \<or> (py = y + vY \<and> x \<le> px \<and> px < x + Suc j))"
        by (simp add: eq)
    qed
    moreover have "length (fst (markCell w x y vY j t)) = w * h" using t by (simp add: eq)
    moreover have "snd (markCell w x y vY j t) = p + Suc j" using t by (simp add: eq)
    ultimately show "?P (Suc j) (markCell w x y vY j t)" by blast
  qed
  then show ?thesis by (simp add: r_def)
qed

lemma markRect_effect:
  fixes p :: nat
  assumes len: "length vis = w * h" and bx: "x + rectW \<le> w" and yb: "y + rectH \<le> h"
    and free: "\<forall>dy<rectH. \<forall>dx<rectW. \<not> visited_at vis ((y + dy) * w + (x + dx))"
  defines "r \<equiv> markRect w x y rectW rectH (vis, p)"
  shows "length (fst r) = w * h \<and> snd r = p + rectH * rectW \<and>
         (\<forall>px<w. \<forall>py. visited_at (fst r) (py * w + px) =
            (visited_at vis (py * w + px) \<or>
             (y \<le> py \<and> py < y + rectH \<and> x \<le> px \<and> px < x + rectW)))"
proof -
  let ?P = "\<lambda>j s. length (fst s) = w * h \<and> snd s = p + j * rectW \<and>
         (\<forall>px<w. \<forall>py. visited_at (fst s) (py * w + px) =
            (visited_at vis (py * w + px) \<or>
             (y \<le> py \<and> py < y + j \<and> x \<le> px \<and> px < x + rectW)))"
  let ?body = "\<lambda>vY. for_loop 0 rectW (\<lambda>vX. markCell w x y vY vX)"
  have "?P rectH (for_loop 0 rectH ?body (vis, p))"
  proof (rule for_loop_rule [where P = ?P])
    show "?P 0 (vis, p)" using len by auto
    show "0 \<le> rectH" by simp
  next
    fix j t assume j: "0 \<le> j" "j < rectH" and t: "?P j t"
    have yj: "y + j < h" using j yb by simp
    have free_t: "\<forall>dx<rectW. \<not> visited_at (fst t) ((y + j) * w + (x + dx))"
    proof (intro allI impI)
      fix dx assume dx: "dx < rectW"
      then have "x + dx < w" using bx by simp
      then have "visited_at (fst t) ((y + j) * w + (x + dx)) =
                 visited_at vis ((y + j) * w + (x + dx))"
        using t by simp
      then show "\<not> visited_at (fst t) ((y + j) * w + (x + dx))"
        using free j dx by simp
    qed
    have lt: "length (fst t) = w * h" using t by simp
    have row: "length (fst (?body j t)) = w * h \<and> snd (?body j t) = snd t + rectW \<and>
         (\<forall>px<w. \<forall>py. visited_at (fst (?body j t)) (py * w + px) =
            (visited_at (fst t) (py * w + px) \<or> (py = y + j \<and> x \<le> px \<and> px < x + rectW)))"
      using markRow [OF lt bx yj free_t, of "snd t"] by simp
    have "\<forall>px<w. \<forall>py. visited_at (fst (?body j t)) (py * w + px) =
            (visited_at vis (py * w + px) \<or>
             (y \<le> py \<and> py < y + Suc j \<and> x \<le> px \<and> px < x + rectW))"
    proof (intro allI impI)
      fix px py assume px: "px < w"
      have "visited_at (fst (?body j t)) (py * w + px) =
            (visited_at (fst t) (py * w + px) \<or> (py = y + j \<and> x \<le> px \<and> px < x + rectW))"
        using row px by blast
      also have "\<dots> = ((visited_at vis (py * w + px) \<or>
             (y \<le> py \<and> py < y + j \<and> x \<le> px \<and> px < x + rectW))
             \<or> (py = y + j \<and> x \<le> px \<and> px < x + rectW))"
        using t px by simp
      also have "\<dots> = (visited_at vis (py * w + px) \<or>
             (y \<le> py \<and> py < y + Suc j \<and> x \<le> px \<and> px < x + rectW))"
        by auto
      finally show "visited_at (fst (?body j t)) (py * w + px) =
            (visited_at vis (py * w + px) \<or>
             (y \<le> py \<and> py < y + Suc j \<and> x \<le> px \<and> px < x + rectW))" .
    qed
    moreover have "snd (?body j t) = p + Suc j * rectW" using row t by simp
    ultimately show "?P (Suc j) (?body j t)" using row by blast
  qed
  then show ?thesis by (simp add: r_def markRect_def)
qed

subsection \<open>Cells of a rectangle\<close>

lemma set_rectCells:
  "set (rectCells r) =
     {(px, py). rx r \<le> px \<and> px < rx r + rw r \<and> ry r \<le> py \<and> py < ry r + rh r}"
proof (rule set_eqI)
  fix c :: "nat \<times> nat"
  obtain px py where c: "c = (px, py)" by (cases c)
  have "(px, py) \<in> set (rectCells r) \<longleftrightarrow>
        (\<exists>dy<rh r. \<exists>dx<rw r. px = rx r + dx \<and> py = ry r + dy)"
    by (force simp add: rectCells_def image_iff)
  also have "\<dots> \<longleftrightarrow> (rx r \<le> px \<and> px < rx r + rw r \<and> ry r \<le> py \<and> py < ry r + rh r)"
  proof
    assume "\<exists>dy<rh r. \<exists>dx<rw r. px = rx r + dx \<and> py = ry r + dy"
    then show "rx r \<le> px \<and> px < rx r + rw r \<and> ry r \<le> py \<and> py < ry r + rh r" by auto
  next
    assume a: "rx r \<le> px \<and> px < rx r + rw r \<and> ry r \<le> py \<and> py < ry r + rh r"
    then have "py - ry r < rh r" "px - rx r < rw r" "px = rx r + (px - rx r)" "py = ry r + (py - ry r)"
      by auto
    then show "\<exists>dy<rh r. \<exists>dx<rw r. px = rx r + dx \<and> py = ry r + dy" by blast
  qed
  finally show "c \<in> set (rectCells r) \<longleftrightarrow>
     c \<in> {(px, py). rx r \<le> px \<and> px < rx r + rw r \<and> ry r \<le> py \<and> py < ry r + rh r}"
    by (simp add: c)
qed

lemma length_rectCells: "length (rectCells r) = rh r * rw r"
  by (simp add: rectCells_def length_product)

lemma distinct_rectCells: "distinct (rectCells r)"
proof -
  have "inj_on (\<lambda>(dy, dx). (rx r + dx, ry r + dy)) (set (List.product [0..<rh r] [0..<rw r]))"
    by (rule inj_onI) auto
  moreover have "distinct (List.product [0..<rh r] [0..<rw r])"
    by (simp add: distinct_product)
  ultimately show ?thesis
    by (simp add: rectCells_def distinct_map)
qed

subsection \<open>The rectangle grown at an anchor\<close>

lemma isColorSimilar_refl: "isColorSimilar c c tol"
  by (simp add: isColorSimilar_def)

lemma anchor_width:
  assumes x: "x < targetWidth buf"
    and nv: "\<not> visited_at vis idx"
  shows "1 \<le> growWidth buf vis tol x idx (data_at (data buf) idx) 0"
proof -
  have "growWidth buf vis tol x idx (data_at (data buf) idx) 0 =
        growWidth buf vis tol x idx (data_at (data buf) idx) (Suc 0)"
    using x nv by (subst growWidth.simps) (simp add: isColorSimilar_refl)
  then show ?thesis
    using growWidth_ge [of "Suc 0" buf vis tol x idx "data_at (data buf) idx"] by simp
qed

lemma anchor_rect_free:
  fixes buf vis tol x y
  defines "w \<equiv> targetWidth buf"
  defines "color \<equiv> data_at (data buf) (y * w + x)"
  defines "rectW \<equiv> growWidth buf vis tol x (y * w + x) color 0"
  defines "rectH \<equiv> growHeight buf vis tol x y color rectW 1"
  assumes dy: "dy < rectH" and dx: "dx < rectW"
  shows "cellFree buf vis tol color ((y + dy) * w + (x + dx))"
proof (cases "dy = 0")
  case True
  have "cellFree buf vis tol color ((y * w + x) + dx)"
    using growWidth_free [of 0 dx buf vis tol x "y * w + x" color] dx
    by (simp add: rectW_def)
  then show ?thesis using True by (simp add: add.assoc)
next
  case False
  then have "1 \<le> dy" by simp
  then have "rowExpandable buf vis tol x y color rectW dy 0"
    using growHeight_rows [of 1 dy buf vis tol x y color rectW] dy by (simp add: rectH_def)
  then show ?thesis
    using dx by (simp add: rowExpandable_iff w_def)
qed

lemma anchor_rect_bounds:
  fixes buf vis tol x y
  defines "w \<equiv> targetWidth buf"
  defines "color \<equiv> data_at (data buf) (y * w + x)"
  defines "rectW \<equiv> growWidth buf vis tol x (y * w + x) color 0"
  defines "rectH \<equiv> growHeight buf vis tol x y color rectW 1"
  assumes x: "x < targetWidth buf" and y: "y < targetHeight buf"
  shows "x + rectW \<le> targetWidth buf" and "y + rectH \<le> targetHeight buf" and "1 \<le> rectH"
proof -
  show "x + rectW \<le> targetWidth buf"
    using growWidth_bound [of x 0 buf vis tol "y * w + x" color] x by (simp add: rectW_def)
  show "y + rectH \<le> targetHeight buf"
    using growHeight_bound [of y 1 buf vis tol x color rectW] y by (simp add: rectH_def)
  show "1 \<le> rectH"
    using growHeight_ge [of 1 buf vis tol x y color rectW] by (simp add: rectH_def)
qed

subsection \<open>One pixel of the scan\<close>

lemma pixelStep_visited:
  "visited_at (visited st) (y * targetWidth buf + x) \<Longrightarrow> pixelStep buf tol y x st = st"
  by (simp add: pixelStep_def)

lemma pixelStep_skip:
  assumes "\<not> visited_at (visited st) (y * targetWidth buf + x)"
    and "channel 24 (data_at (data buf) (y * targetWidth buf + x)) < 2"
  shows "pixelStep buf tol y x st =
     st\<lparr>visited := (visited st)[y * targetWidth buf + x := True],
        processed := Suc (processed st),
        skippedPixels := skippedPixels st @ [(x, y)]\<rparr>"
  using assms by (simp add: pixelStep_def Let_def)

lemma pixelStep_rect:
  fixes buf tol x y st
  defines "idx \<equiv> y * targetWidth buf + x"
  defines "color \<equiv> data_at (data buf) idx"
  defines "rectW \<equiv> growWidth buf (visited st) tol x idx color 0"
  defines "rectH \<equiv> growHeight buf (visited st) tol x y color rectW 1"
  defines "marked \<equiv> markRect (targetWidth buf) x y rectW rectH (visited st, processed st)"
  assumes "\<not> visited_at (visited st) idx" and "\<not> channel 24 color < 2"
  shows "pixelStep buf tol y x st =
     st\<lparr>visited := fst marked,
        processed := snd marked,
        colorPaths := pushPath color (rectCommand x y rectW rectH) (colorPaths st),
        regionRects := regionRects st @
          [\<lparr>rx = x, ry = y, rw = rectW, rh = rectH, colorKey = color\<rparr>]\<rparr>"
  using assms(6,7)
  unfolding pixelStep_def Let_def idx_def color_def rectW_def rectH_def marked_def
  by simp

lemma pixelStep_inv:
  assumes inv: "traceInv buf st" and x: "x < targetWidth buf" and y: "y < targetHeight buf"
  shows "traceInv buf (pixelStep buf tol y x st) \<and>
         set (coveredCells st) \<subseteq> set (coveredCells (pixelStep buf tol y x st)) \<and>
         (x, y) \<in> set (coveredCells (pixelStep buf tol y x st))"
proof -
  let ?w = "targetWidth buf" and ?h = "targetHeight buf"
  let ?idx = "y * ?w + x"
  have len: "length (visited st) = ?w * ?h"
    and dist: "distinct (coveredCells st)"
    and sub: "set (coveredCells st) \<subseteq> gridCells buf"
    and vis: "\<And>px py. px < ?w \<Longrightarrow>
                visited_at (visited st) (py * ?w + px) = ((px, py) \<in> set (coveredCells st))"
    and cnt: "processed st = length (coveredCells st)"
    using inv by (simp_all add: traceInv_def)
  have ingrid: "(x, y) \<in> gridCells buf" using x y by (simp add: gridCells_def)
  have idx: "?idx < length (visited st)" using idx_less [OF x y] len by simp
  show ?thesis
  proof (cases "visited_at (visited st) ?idx")
    case True
    then have "pixelStep buf tol y x st = st" by (rule pixelStep_visited)
    moreover have "(x, y) \<in> set (coveredCells st)" using True vis [OF x] by simp
    ultimately show ?thesis using inv by simp
  next
    case nv: False
    then have fresh: "(x, y) \<notin> set (coveredCells st)" using vis [OF x] by simp
    show ?thesis
    proof (cases "channel 24 (data_at (data buf) ?idx) < 2")
      case True
      let ?st' = "st\<lparr>visited := (visited st)[?idx := True],
                      processed := Suc (processed st),
                      skippedPixels := skippedPixels st @ [(x, y)]\<rparr>"
      have eq: "pixelStep buf tol y x st = ?st'" by (rule pixelStep_skip [OF nv True])
      have cov: "coveredCells ?st' = coveredCells st @ [(x, y)]"
        by (simp add: coveredCells_def)
      have "\<forall>px<?w. \<forall>py. visited_at (visited ?st') (py * ?w + px) =
              ((px, py) \<in> set (coveredCells ?st'))"
      proof (intro allI impI)
        fix px py assume px: "px < ?w"
        have "visited_at ((visited st)[?idx := True]) (py * ?w + px) =
              (visited_at (visited st) (py * ?w + px) \<or> (px = x \<and> py = y))"
          by (rule visited_at_update [OF px x idx])
        then show "visited_at (visited ?st') (py * ?w + px) = ((px, py) \<in> set (coveredCells ?st'))"
          using vis [OF px] by (auto simp add: cov)
      qed
      moreover have "length (visited ?st') = ?w * ?h" using len by simp
      moreover have "distinct (coveredCells ?st')" using dist fresh by (simp add: cov)
      moreover have "set (coveredCells ?st') \<subseteq> gridCells buf" using sub ingrid by (simp add: cov)
      moreover have "processed ?st' = length (coveredCells ?st')" unfolding cov using cnt by simp
      ultimately have "traceInv buf ?st'" unfolding traceInv_def by blast
      then show ?thesis unfolding eq by (auto simp add: cov)
    next
      case opaque: False
      define color where "color = data_at (data buf) ?idx"
      define rectW where "rectW = growWidth buf (visited st) tol x ?idx color 0"
      define rectH where "rectH = growHeight buf (visited st) tol x y color rectW 1"
      define marked where "marked = markRect ?w x y rectW rectH (visited st, processed st)"
      define r where "r = \<lparr>rx = x, ry = y, rw = rectW, rh = rectH, colorKey = color\<rparr>"
      let ?st' = "st\<lparr>visited := fst marked,
                      processed := snd marked,
                      colorPaths := pushPath color (rectCommand x y rectW rectH) (colorPaths st),
                      regionRects := regionRects st @ [r]\<rparr>"
      have eq: "pixelStep buf tol y x st = ?st'"
        using pixelStep_rect [of st y buf x tol] nv opaque
        unfolding color_def rectW_def rectH_def marked_def r_def by simp
      have w1: "1 \<le> rectW"
        using anchor_width [OF x nv, of tol] by (simp add: rectW_def color_def)
      have bounds: "x + rectW \<le> ?w" "y + rectH \<le> ?h" "1 \<le> rectH"
        using anchor_rect_bounds [OF x y, of "visited st" tol]
        unfolding rectW_def rectH_def color_def by simp_all
      have free: "\<forall>dy<rectH. \<forall>dx<rectW. \<not> visited_at (visited st) ((y + dy) * ?w + (x + dx))"
        using anchor_rect_free [of _ buf "visited st" tol x y]
        unfolding rectW_def rectH_def color_def cellFree_def by blast
      have eff: "length (fst marked) = ?w * ?h" "snd marked = processed st + rectH * rectW"
        "\<And>px py. px < ?w \<Longrightarrow> visited_at (fst marked) (py * ?w + px) =
            (visited_at (visited st) (py * ?w + px) \<or>
             (y \<le> py \<and> py < y + rectH \<and> x \<le> px \<and> px < x + rectW))"
        using markRect_effect [OF len bounds(1,2) free, of "processed st"]
        unfolding marked_def by simp_all
      have rset: "set (rectCells r) =
          {(px, py). x \<le> px \<and> px < x + rectW \<and> y \<le> py \<and> py < y + rectH}"
        by (simp add: set_rectCells r_def)
      have cov_set: "set (coveredCells ?st') = set (coveredCells st) \<union> set (rectCells r)"
        by (auto simp add: coveredCells_def)
      have cov_len: "length (coveredCells ?st') = length (coveredCells st) + rectH * rectW"
        by (simp add: coveredCells_def length_rectCells r_def)
      have disj: "set (coveredCells st) \<inter> set (rectCells r) = {}"
      proof (rule ccontr)
        assume "set (coveredCells st) \<inter> set (rectCells r) \<noteq> {}"
        then obtain px py where c: "(px, py) \<in> set (coveredCells st)" and rc: "(px, py) \<in> set (rectCells r)"
          by auto
        from rc have b: "x \<le> px" "px < x + rectW" "y \<le> py" "py < y + rectH" by (simp_all add: rset)
        then have px: "px < ?w" using bounds by simp
        have "visited_at (visited st) (py * ?w + px)" using vis [OF px] c by simp
        moreover have "\<not> visited_at (visited st) ((y + (py - y)) * ?w + (x + (px - x)))"
          using free b by (metis add_diff_inverse_nat less_diff_conv2 not_less add.commute)
        ultimately show False using b by simp
      qed
      have cov_dist: "distinct (coveredCells ?st')"
        using dist disj distinct_rectCells [of r]
        by (auto simp add: coveredCells_def)
      have "\<forall>px<?w. \<forall>py. visited_at (visited ?st') (py * ?w + px) =
              ((px, py) \<in> set (coveredCells ?st'))"
        using eff(3) vis by (auto simp add: cov_set rset)
      moreover have "length (visited ?st') = ?w * ?h" using eff(1) by simp
      moreover have "set (coveredCells ?st') \<subseteq> gridCells buf"
        using sub bounds by (auto simp add: cov_set rset gridCells_def)
      moreover have "processed ?st' = length (coveredCells ?st')"
        unfolding cov_len using cnt eff(2) by simp
      ultimately have "traceInv buf ?st'" using cov_dist unfolding traceInv_def by blast
      moreover have "(x, y) \<in> set (coveredCells ?st')"
        using w1 bounds(3) by (simp add: cov_set rset)
      ultimately show ?thesis unfolding eq by (auto simp add: cov_set)
    qed
  qed
qed

subsection \<open>Rows, batches and the whole scan\<close>

text \<open>All cells of the rows before \<open>y\<close> are covered.\<close>

lemma scanRow_inv:
  assumes inv: "traceInv buf st" and y: "y < targetHeight buf"
    and above: "\<forall>py<y. \<forall>px<targetWidth buf. (px, py) \<in> set (coveredCells st)"
  shows "traceInv buf (scanRow buf tol y st) \<and>
         (\<forall>py<Suc y. \<forall>px<targetWidth buf. (px, py) \<in> set (coveredCells (scanRow buf tol y st)))"
proof -
  let ?P = "\<lambda>j s. traceInv buf s \<and> set (coveredCells st) \<subseteq> set (coveredCells s) \<and>
                (\<forall>px<j. (px, y) \<in> set (coveredCells s))"
  have "?P (targetWidth buf) (for_loop 0 (targetWidth buf) (pixelStep buf tol y) st)"
  proof (rule for_loop_rule [where P = ?P])
    show "?P 0 st" using inv by simp
    show "0 \<le> targetWidth buf" by simp
  next
    fix j t assume j: "0 \<le> j" "j < targetWidth buf" and t: "?P j t"
    have step: "traceInv buf (pixelStep buf tol y j t) \<and>
         set (coveredCells t) \<subseteq> set (coveredCells (pixelStep buf tol y j t)) \<and>
         (j, y) \<in> set (coveredCells (pixelStep buf tol y j t))"
      using pixelStep_inv [OF _ j(2) y, of t tol] t by blast
    have "\<forall>px<Suc j. (px, y) \<in> set (coveredCells (pixelStep buf tol y j t))"
    proof (intro allI impI)
      fix px assume "px < Suc j"
      then consider "px < j" | "px = j" by linarith
      then show "(px, y) \<in> set (coveredCells (pixelStep buf tol y j t))"
        using t step by cases auto
    qed
    moreover have "set (coveredCells st) \<subseteq> set (coveredCells (pixelStep buf tol y j t))"
      using t step by blast
    ultimately show "?P (Suc j) (pixelStep buf tol y j t)" using step by blast
  qed
  then have r: "?P (targetWidth buf) (scanRow buf tol y st)" by (simp add: scanRow_def)
  have "\<forall>py<Suc y. \<forall>px<targetWidth buf. (px, py) \<in> set (coveredCells (scanRow buf tol y st))"
  proof (intro allI impI)
    fix py px assume "py < Suc y" and px: "px < targetWidth buf"
    then consider "py < y" | "py = y" by linarith
    then show "(px, py) \<in> set (coveredCells (scanRow buf tol y st))"
      using r above px by cases auto
  qed
  then show ?thesis using r by blast
qed

lemma scanRows_inv:
  assumes inv: "traceInv buf st" and b: "batchY \<le> endY" and e: "endY \<le> targetHeight buf"
    and above: "\<forall>py<batchY. \<forall>px<targetWidth buf. (px, py) \<in> set (coveredCells st)"
  shows "traceInv buf (for_loop batchY endY (scanRow buf tol) st) \<and>
         (\<forall>py<endY. \<forall>px<targetWidth buf.
            (px, py) \<in> set (coveredCells (for_loop batchY endY (scanRow buf tol) st)))"
proof -
  let ?P = "\<lambda>j s. traceInv buf s \<and>
                (\<forall>py<j. \<forall>px<targetWidth buf. (px, py) \<in> set (coveredCells s))"
  show ?thesis
  proof (rule for_loop_rule [where P = ?P])
    show "?P batchY st" using inv above by simp
    show "batchY \<le> endY" by (rule b)
  next
    fix j t assume j: "batchY \<le> j" "j < endY" and t: "?P j t"
    have "j < targetHeight buf" using j e by simp
    then show "?P (Suc j) (scanRow buf tol j t)"
      using scanRow_inv [of buf t j tol] t by blast
  qed
qed

lemma traceInv_log:
  "traceInv buf (st\<lparr>progressLog := l\<rparr>) = traceInv buf st"
  by (simp add: traceInv_def coveredCells_def)

lemma coveredCells_log:
  "coveredCells (st\<lparr>progressLog := l\<rparr>) = coveredCells st"
  by (simp add: coveredCells_def)

lemma runBatches_inv:
  assumes "traceInv buf st"
    and "\<forall>py<min batchY (targetHeight buf). \<forall>px<targetWidth buf. (px, py) \<in> set (coveredCells st)"
  shows "traceInv buf (runBatches buf tol batchY st) \<and>
         (\<forall>py<targetHeight buf. \<forall>px<targetWidth buf.
            (px, py) \<in> set (coveredCells (runBatches buf tol batchY st)))"
  using assms
proof (induction buf tol batchY st rule: runBatches.induct)
  case (1 buf tol batchY st)
  show ?case
  proof (cases "batchY < targetHeight buf")
    case True
    define endY where "endY = min (batchY + BATCH_ROWS) (targetHeight buf)"
    define st1 where "st1 = for_loop batchY endY (scanRow buf tol) st"
    define st2 where "st2 = st1\<lparr>progressLog := progressLog st1 @
                     [progressPercent (processed st1) (targetWidth buf * targetHeight buf)]\<rparr>"
    have eq: "runBatches buf tol batchY st = runBatches buf tol (batchY + BATCH_ROWS) st2"
      using True by (subst runBatches.simps) (simp add: Let_def endY_def st1_def st2_def)
    have be: "batchY \<le> endY" "endY \<le> targetHeight buf"
      using True by (simp_all add: endY_def)
    have above: "\<forall>py<batchY. \<forall>px<targetWidth buf. (px, py) \<in> set (coveredCells st)"
      using 1(3) True by simp
    have s1: "traceInv buf st1 \<and> (\<forall>py<endY. \<forall>px<targetWidth buf. (px, py) \<in> set (coveredCells st1))"
      unfolding st1_def by (rule scanRows_inv [OF 1(2) be above])
    have s2: "traceInv buf st2"
      "\<forall>py<min (batchY + BATCH_ROWS) (targetHeight buf). \<forall>px<targetWidth buf.
          (px, py) \<in> set (coveredCells st2)"
      using s1 by (simp_all add: st2_def traceInv_log coveredCells_log endY_def)
    show ?thesis
      unfolding eq
      by (rule 1(1) [OF True endY_def st1_def st2_def s2])
  next
    case False
    then have "runBatches buf tol batchY st = st" by (subst runBatches.simps) simp
    then show ?thesis using 1(2,3) False by simp
  qed
qed

lemma traceInv_initial: "traceInv buf (initialState buf)"
  by (simp add: traceInv_def initialState_def coveredCells_def visited_at_def)

lemma growPhase_inv:
  "traceInv buf (growPhase buf tol) \<and>
   (\<forall>py<targetHeight buf. \<forall>px<targetWidth buf. (px, py) \<in> set (coveredCells (growPhase buf tol)))"
  unfolding growPhase_def
  by (rule runBatches_inv [OF traceInv_initial]) simp

lemma card_gridCells: "card (gridCells buf) = targetWidth buf * targetHeight buf"
  by (simp add: gridCells_def)

text \<open>A state that satisfies the invariant and covers every cell of the grid.\<close>

lemma covered_all:
  assumes inv: "traceInv buf st"
    and all: "\<forall>py<targetHeight buf. \<forall>px<targetWidth buf. (px, py) \<in> set (coveredCells st)"
  shows "distinct (coveredCells st)
   \<and> set (coveredCells st) = gridCells buf
   \<and> visited st = replicate (targetWidth buf * targetHeight buf) True
   \<and> processed st = targetWidth buf * targetHeight buf"
proof -
  let ?w = "targetWidth buf" and ?h = "targetHeight buf"
  have len: "length (visited st) = ?w * ?h"
    and dist: "distinct (coveredCells st)"
    and sub: "set (coveredCells st) \<subseteq> gridCells buf"
    and vis: "\<And>px py. px < ?w \<Longrightarrow>
                visited_at (visited st) (py * ?w + px) = ((px, py) \<in> set (coveredCells st))"
    and cnt: "processed st = length (coveredCells st)"
    using inv by (simp_all add: traceInv_def)
  have "gridCells buf \<subseteq> set (coveredCells st)"
    using all by (auto simp add: gridCells_def)
  then have seteq: "set (coveredCells st) = gridCells buf" using sub by blast
  have "length (coveredCells st) = card (set (coveredCells st))"
    using dist by (simp add: distinct_card)
  then have total: "processed st = ?w * ?h"
    using cnt by (simp add: seteq card_gridCells)
  have "visited st = replicate (?w * ?h) True"
  proof (rule nth_equalityI)
    show "length (visited st) = length (replicate (?w * ?h) True)" using len by simp
  next
    fix i assume "i < length (visited st)"
    then have i: "i < ?w * ?h" using len by simp
    then have w0: "0 < ?w" by (cases "?w") simp_all
    have px: "i mod ?w < ?w" using w0 by simp
    have py: "i div ?w < ?h" using i by (simp add: less_mult_imp_div_less mult.commute)
    have "visited_at (visited st) ((i div ?w) * ?w + i mod ?w) =
          ((i mod ?w, i div ?w) \<in> set (coveredCells st))"
      by (rule vis [OF px])
    then have "visited_at (visited st) ((i div ?w) * ?w + i mod ?w)"
      using all px py by blast
    then have "visited st ! i" by (simp add: visited_at_def)
    then show "visited st ! i = replicate (?w * ?h) True ! i" using i by simp
  qed
  then show ?thesis
    using dist seteq total by simp
qed


subsection \<open>Properties kept by every step of the scan\<close>

lemma for_loop_preserves:
  assumes "P s" and "\<And>j t. i \<le> j \<Longrightarrow> j < n \<Longrightarrow> P t \<Longrightarrow> P (body j t)"
  shows "P (for_loop i n body s)"
proof (cases "i \<le> n")
  case True
  show ?thesis
    by (rule for_loop_rule [where P = "\<lambda>j. P", OF assms(1) True]) (rule assms(2))
next
  case False
  then show ?thesis using assms(1) by (simp add: for_loop_done)
qed

lemma runBatches_preserves:
  assumes step: "\<And>x y t. x < targetWidth buf \<Longrightarrow> y < targetHeight buf \<Longrightarrow> P t \<Longrightarrow>
                   P (pixelStep buf tol y x t)"
    and log: "\<And>t l. P t \<Longrightarrow> P (t\<lparr>progressLog := l\<rparr>)"
    and start: "P st"
  shows "P (runBatches buf tol batchY st)"
  using assms
proof (induction buf tol batchY st rule: runBatches.induct)
  case (1 buf tol batchY st)
  note step = 1(2) and log = 1(3)
  show ?case
  proof (cases "batchY < targetHeight buf")
    case True
    define endY where "endY = min (batchY + BATCH_ROWS) (targetHeight buf)"
    define st1 where "st1 = for_loop batchY endY (scanRow buf tol) st"
    define st2 where "st2 = st1\<lparr>progressLog := progressLog st1 @
                     [progressPercent (processed st1) (targetWidth buf * targetHeight buf)]\<rparr>"
    have eq: "runBatches buf tol batchY st = runBatches buf tol (batchY + BATCH_ROWS) st2"
      using True by (subst runBatches.simps) (simp add: Let_def endY_def st1_def st2_def)
    have "P st1"
      unfolding st1_def
    proof (rule for_loop_preserves [where P = P and s = st, OF 1(4)])
      fix j t assume j: "batchY \<le> j" "j < endY" and t: "P t"
      have jh: "j < targetHeight buf" using j by (simp add: endY_def)
      show "P (scanRow buf tol j t)"
        unfolding scanRow_def
        by (rule for_loop_preserves [where P = P and s = t, OF t]) (rule step [OF _ jh])
    qed
    then have "P st2" unfolding st2_def by (rule log)
    then have "P (runBatches buf tol (batchY + BATCH_ROWS) st2)"
      using 1(1) [OF True endY_def st1_def st2_def] step log by blast
    then show ?thesis
      unfolding eq .
  next
    case False
    then have "runBatches buf tol batchY st = st" by (subst runBatches.simps) simp
    then show ?thesis using 1(4) by simp
  qed
qed

lemma growPhase_preserves:
  assumes "P (initialState buf)"
    and "\<And>x y t. x < targetWidth buf \<Longrightarrow> y < targetHeight buf \<Longrightarrow> P t \<Longrightarrow>
           P (pixelStep buf tol y x t)"
    and "\<And>t l. P t \<Longrightarrow> P (t\<lparr>progressLog := l\<rparr>)"
  shows "P (growPhase buf tol)"
  unfolding growPhase_def
  by (rule runBatches_preserves [where P = P, OF assms(2) assms(3) assms(1)])

subsection \<open>Committed rectangles are not empty\<close>

lemma pixelStep_rects_nonempty:
  assumes x: "x < targetWidth buf" and y: "y < targetHeight buf"
    and P: "\<forall>r\<in>set (regionRects st). 1 \<le> rw r \<and> 1 \<le> rh r"
  shows "\<forall>r\<in>set (regionRects (pixelStep buf tol y x st)). 1 \<le> rw r \<and> 1 \<le> rh r"
proof (cases "visited_at (visited st) (y * targetWidth buf + x)")
  case True
  then show ?thesis using P by (simp add: pixelStep_visited)
next
  case nv: False
  show ?thesis
  proof (cases "channel 24 (data_at (data buf) (y * targetWidth buf + x)) < 2")
    case True
    then show ?thesis using P by (simp add: pixelStep_skip [OF nv True])
  next
    case False
    have "1 \<le> growWidth buf (visited st) tol x (y * targetWidth buf + x)
                 (data_at (data buf) (y * targetWidth buf + x)) 0"
      by (rule anchor_width [OF x nv])
    moreover have "1 \<le> growHeight buf (visited st) tol x y (data_at (data buf) (y * targetWidth buf + x))
                 (growWidth buf (visited st) tol x (y * targetWidth buf + x)
                   (data_at (data buf) (y * targetWidth buf + x)) 0) 1"
      by (rule growHeight_ge)
    ultimately show ?thesis
      using P by (simp add: pixelStep_rect [OF nv False])
  qed
qed

text \<open>
  Claim C10. Every rectangle committed during a trace has width and height at least 1
  and contains its anchor pixel, the pixel at its top left corner.
\<close>

theorem committed_rect_nonempty:
  assumes "r \<in> set (regionRects (growPhase buf tol))"
  shows "1 \<le> rw r \<and> 1 \<le> rh r \<and> (rx r, ry r) \<in> set (rectCells r)"
proof -
  have "\<forall>r\<in>set (regionRects (growPhase buf tol)). 1 \<le> rw r \<and> 1 \<le> rh r"
  proof (rule growPhase_preserves)
    show "\<forall>r\<in>set (regionRects (initialState buf)). 1 \<le> rw r \<and> 1 \<le> rh r"
      by (simp add: initialState_def)
  next
    fix x y and t :: trace_state
    assume "x < targetWidth buf" "y < targetHeight buf"
      "\<forall>r\<in>set (regionRects t). 1 \<le> rw r \<and> 1 \<le> rh r"
    then show "\<forall>r\<in>set (regionRects (pixelStep buf tol y x t)). 1 \<le> rw r \<and> 1 \<le> rh r"
      by (rule pixelStep_rects_nonempty)
  next
    fix t :: trace_state and l
    assume "\<forall>r\<in>set (regionRects t). 1 \<le> rw r \<and> 1 \<le> rh r"
    then show "\<forall>r\<in>set (regionRects (t\<lparr>progressLog := l\<rparr>)). 1 \<le> rw r \<and> 1 \<le> rh r"
      by simp
  qed
  then have "1 \<le> rw r \<and> 1 \<le> rh r" using assms by blast
  then show ?thesis by (simp add: set_rectCells)
qed

theorem committed_rect_nonempty_witness:
  "\<lparr>rx = 1, ry = 1, rw = 1, rh = 2, colorKey = 0xFF0000FF\<rparr>
     \<in> set (regionRects (growPhase stripesBuffer 0))
   \<and> (1::nat) \<le> rw \<lparr>rx = 1, ry = 1, rw = 1, rh = 2, colorKey = 0xFF0000FF :: color\<rparr>
   \<and> (1::nat) \<le> rh \<lparr>rx = 1, ry = 1, rw = 1, rh = 2, colorKey = 0xFF0000FF :: color\<rparr>
   \<and> (1, 1) \<in> set (rectCells \<lparr>rx = 1, ry = 1, rw = 1, rh = 2, colorKey = 0xFF0000FF :: color\<rparr>)"
proof -
  have h: "\<lparr>rx = 1, ry = 1, rw = 1, rh = 2, colorKey = 0xFF0000FF\<rparr>
     \<in> set (regionRects (growPhase stripesBuffer 0))"
    by code_simp
  show ?thesis
    using h committed_rect_nonempty [OF h] by simp
qed

subsection \<open>Tolerance\<close>

lemma isColorSimilar_mono:
  assumes "tol \<le> tol'" and "isColorSimilar c1 c2 tol"
  shows "isColorSimilar c1 c2 tol'"
  using assms unfolding isColorSimilar_def Let_def
  by (auto split: if_splits)

lemma cellFree_mono:
  "tol \<le> tol' \<Longrightarrow> cellFree buf vis tol color i \<Longrightarrow> cellFree buf vis tol' color i"
  by (auto simp add: cellFree_def intro: isColorSimilar_mono)

lemma growWidth_start_outside:
  "\<not> x + rectW < targetWidth buf \<Longrightarrow> growWidth buf vis tol x idx color rectW = rectW"
  by (subst growWidth.simps) simp

lemma growWidth_mono:
  assumes le: "tol \<le> tol'"
  shows "growWidth buf vis tol x idx color rectW \<le> growWidth buf vis tol' x idx color rectW"
proof (cases "x + rectW < targetWidth buf")
  case False
  then show ?thesis by (simp add: growWidth_start_outside)
next
  case True
  let ?r = "growWidth buf vis tol x idx color rectW"
  let ?r' = "growWidth buf vis tol' x idx color rectW"
  show ?thesis
  proof (rule ccontr)
    assume "\<not> ?r \<le> ?r'"
    then have lt: "?r' < ?r" by simp
    have "x + ?r \<le> targetWidth buf"
      using growWidth_bound [of x rectW buf vis tol idx color] True by simp
    then have "x + ?r' < targetWidth buf" using lt by simp
    then have "\<not> cellFree buf vis tol' color (idx + ?r')" by (rule growWidth_maximal)
    moreover have "cellFree buf vis tol color (idx + ?r')"
      by (rule growWidth_free [OF growWidth_ge lt])
    ultimately show False using cellFree_mono [OF le] by blast
  qed
qed

lemma rowExpandable_mono:
  "tol \<le> tol' \<Longrightarrow> rowExpandable buf vis tol x y color rectW rectH dw \<Longrightarrow>
   rowExpandable buf vis tol' x y color rectW rectH dw"
  unfolding rowExpandable_iff using cellFree_mono by blast

lemma growHeight_start_outside:
  "\<not> y + rectH < targetHeight buf \<Longrightarrow> growHeight buf vis tol x y color rectW rectH = rectH"
  by (rule growHeight_unfold_False) simp

lemma growHeight_mono:
  assumes le: "tol \<le> tol'"
  shows "growHeight buf vis tol x y color rectW rectH \<le> growHeight buf vis tol' x y color rectW rectH"
proof (cases "y + rectH < targetHeight buf")
  case False
  then show ?thesis by (simp add: growHeight_start_outside)
next
  case True
  let ?h = "growHeight buf vis tol x y color rectW rectH"
  let ?h' = "growHeight buf vis tol' x y color rectW rectH"
  show ?thesis
  proof (rule ccontr)
    assume "\<not> ?h \<le> ?h'"
    then have lt: "?h' < ?h" by simp
    have "y + ?h \<le> targetHeight buf"
      using growHeight_bound [of y rectH buf vis tol x color rectW] True by simp
    then have "y + ?h' < targetHeight buf" using lt by simp
    then have "\<not> rowExpandable buf vis tol' x y color rectW ?h' 0" by (rule growHeight_maximal)
    moreover have "rowExpandable buf vis tol x y color rectW ?h' 0"
      by (rule growHeight_rows [OF growHeight_ge lt])
    ultimately show False using rowExpandable_mono [OF le] by blast
  qed
qed

text \<open>
  Claim C4, as the code has it. For a fixed buffer and a fixed visited mask, a larger
  tolerance never makes two colors dissimilar that were similar, never shortens the width
  grown from an anchor, and for a fixed width never shortens the height grown from it.
  The area is not monotone: the height is grown for the width reached, and a wider
  rectangle can be stopped by a row that a narrower one passes.
\<close>

theorem tolerance_monotone:
  assumes "tol \<le> tol'"
  shows "(isColorSimilar c1 c2 tol \<longrightarrow> isColorSimilar c1 c2 tol')
       \<and> growWidth buf vis tol x idx color 0 \<le> growWidth buf vis tol' x idx color 0
       \<and> growHeight buf vis tol x y color rectW 1 \<le> growHeight buf vis tol' x y color rectW 1"
proof (intro conjI impI)
  assume "isColorSimilar c1 c2 tol"
  then show "isColorSimilar c1 c2 tol'" by (rule isColorSimilar_mono [OF assms])
next
  show "growWidth buf vis tol x idx color 0 \<le> growWidth buf vis tol' x idx color 0"
    by (rule growWidth_mono [OF assms])
next
  show "growHeight buf vis tol x y color rectW 1 \<le> growHeight buf vis tol' x y color rectW 1"
    by (rule growHeight_mono [OF assms])
qed

theorem tolerance_monotone_witness:
  "(0::int) \<le> 1
   \<and> isColorSimilar 0xFF000010 0xFF000010 0 \<and> isColorSimilar 0xFF000010 0xFF000010 1
   \<and> growWidth stripesBuffer (visited (initialState stripesBuffer)) 0 0 0 0xFF000010 0 = 1
   \<and> growWidth stripesBuffer (visited (initialState stripesBuffer)) 1 0 0 0xFF000010 0 = 2
   \<and> growHeight stripesBuffer (visited (initialState stripesBuffer)) 0 0 0 0xFF000010 1 1 = 3
   \<and> growHeight stripesBuffer (visited (initialState stripesBuffer)) 1 0 0 0xFF000010 1 1 = 3"
proof -
  have h: "(0::int) \<le> 1" by simp
  have a: "isColorSimilar 0xFF000010 0xFF000010 0" by (simp add: isColorSimilar_def)
  have w0: "growWidth stripesBuffer (visited (initialState stripesBuffer)) 0 0 0 0xFF000010 0 = 1"
    by code_simp
  have w1: "growWidth stripesBuffer (visited (initialState stripesBuffer)) 1 0 0 0xFF000010 0 = 2"
    by code_simp
  have h0: "growHeight stripesBuffer (visited (initialState stripesBuffer)) 0 0 0 0xFF000010 1 1 = 3"
    by code_simp
  have h1: "growHeight stripesBuffer (visited (initialState stripesBuffer)) 1 0 0 0xFF000010 1 1 = 3"
    by code_simp
  show ?thesis
    using h a w0 w1 h0 h1
      tolerance_monotone [OF h, of "0xFF000010" "0xFF000010" stripesBuffer
        "visited (initialState stripesBuffer)" 0 0 "0xFF000010" 0 1]
    by simp
qed

text \<open>
  Claim C4 as stated fails. In \<open>stripesBuffer\<close> the first anchor is the pixel (0, 0) for
  every tolerance. With tolerance 0 its rectangle is 1 wide and 3 high; with tolerance 1
  it is 2 wide and 1 high.
\<close>

theorem tolerance_area_counterexample:
  "regionRects (growPhase stripesBuffer 0) ! 0 = \<lparr>rx = 0, ry = 0, rw = 1, rh = 3, colorKey = 0xFF000010\<rparr>
   \<and> regionRects (growPhase stripesBuffer 1) ! 0 = \<lparr>rx = 0, ry = 0, rw = 2, rh = 1, colorKey = 0xFF000010\<rparr>
   \<and> rw (regionRects (growPhase stripesBuffer 1) ! 0) * rh (regionRects (growPhase stripesBuffer 1) ! 0)
       < rw (regionRects (growPhase stripesBuffer 0) ! 0) * rh (regionRects (growPhase stripesBuffer 0) ! 0)"
proof -
  have a: "regionRects (growPhase stripesBuffer 0) ! 0 = \<lparr>rx = 0, ry = 0, rw = 1, rh = 3, colorKey = 0xFF000010\<rparr>"
    by code_simp
  have b: "regionRects (growPhase stripesBuffer 1) ! 0 = \<lparr>rx = 0, ry = 0, rw = 2, rh = 1, colorKey = 0xFF000010\<rparr>"
    by code_simp
  show ?thesis unfolding a b by simp
qed

subsection \<open>The bled rectangle command\<close>

lemma digitChar_2: "digitChar 2 = CHR ''2''"
  by (simp add: digitChar_def)

lemma digitChar_4: "digitChar 4 = CHR ''4''"
  by (simp add: digitChar_def)

lemma showNat_0: "showNat 0 = ''0''"
  by (subst showNat.simps) (simp add: digitChar_def)

lemma showTenths_minus2: "showTenths (- 2) = ''-0.2''"
  by (simp add: showTenths_def showNat_0 digitChar_2)

lemma showTenths_plus4: "showTenths (10 * int n + 4) = showNat n @ ''.4''"
proof -
  have "nat \<bar>10 * int n + 4\<bar> = 10 * n + 4" by simp
  then show ?thesis by (simp add: showTenths_def digitChar_4)
qed

lemma rectCommand_origin:
  "rectCommand 0 0 w h =
     ''M-0.2,-0.2h'' @ showNat w @ ''.4v'' @ showNat h @ ''.4h-'' @ showNat w @ ''.4z''"
  by (simp add: rectCommand_def showTenths_minus2 showTenths_plus4)

subsection \<open>A buffer of one opaque color\<close>

lemma data_at_replicate: "i < n \<Longrightarrow> data_at (replicate n c) i = c"
  by (simp add: data_at_def)

lemma visited_at_fresh: "\<not> visited_at (replicate n False) i"
  by (simp add: visited_at_def)

lemma uniform_cellFree:
  assumes "data buf = replicate (targetWidth buf * targetHeight buf) c"
    and "i < targetWidth buf * targetHeight buf"
  shows "cellFree buf (replicate n False) tol c i"
  using assms by (simp add: cellFree_def visited_at_fresh data_at_replicate isColorSimilar_refl)

lemma uniform_width:
  assumes d: "data buf = replicate (targetWidth buf * targetHeight buf) c"
    and h: "0 < targetHeight buf"
  shows "growWidth buf (replicate n False) tol 0 0 c 0 = targetWidth buf"
proof -
  let ?r = "growWidth buf (replicate n False) tol 0 0 c 0"
  have le: "?r \<le> targetWidth buf"
    using growWidth_bound [of 0 0 buf "replicate n False" tol 0 c] by simp
  have "\<not> ?r < targetWidth buf"
  proof
    assume lt: "?r < targetWidth buf"
    then have "\<not> cellFree buf (replicate n False) tol c (0 + ?r)"
      using growWidth_maximal [of 0 buf "replicate n False" tol 0 c 0] by simp
    moreover have "?r < targetWidth buf * targetHeight buf"
      using idx_less [OF lt h, of ] by simp
    ultimately show False using uniform_cellFree [OF d] by simp
  qed
  then show ?thesis using le by simp
qed

lemma uniform_height:
  assumes d: "data buf = replicate (targetWidth buf * targetHeight buf) c"
    and h: "0 < targetHeight buf"
  shows "growHeight buf (replicate n False) tol 0 0 c (targetWidth buf) 1 = targetHeight buf"
proof -
  let ?h = "growHeight buf (replicate n False) tol 0 0 c (targetWidth buf) 1"
  have le: "?h \<le> targetHeight buf"
    using growHeight_bound [of 0 1 buf "replicate n False" tol 0 c "targetWidth buf"] h by simp
  have "\<not> ?h < targetHeight buf"
  proof
    assume lt: "?h < targetHeight buf"
    then have "\<not> rowExpandable buf (replicate n False) tol 0 0 c (targetWidth buf) ?h 0"
      using growHeight_maximal [of 0 buf "replicate n False" tol 0 c "targetWidth buf" 1] by simp
    then obtain dw where dw: "dw < targetWidth buf"
      and nf: "\<not> cellFree buf (replicate n False) tol c ((0 + ?h) * targetWidth buf + (0 + dw))"
      unfolding rowExpandable_iff by blast
    have "?h * targetWidth buf + dw < targetWidth buf * targetHeight buf"
      by (rule idx_less [OF dw lt])
    then show False using nf uniform_cellFree [OF d] by simp
  qed
  then show ?thesis using le by simp
qed

lemma pushPath_empty: "pushPath c cmd [] = [(c, [cmd])]"
  by (simp add: pushPath_def)

lemma uniform_first_step:
  fixes buf tol c
  defines "st \<equiv> pixelStep buf tol 0 0 (initialState buf)"
  assumes d: "data buf = replicate (targetWidth buf * targetHeight buf) c"
    and w: "0 < targetWidth buf" and h: "0 < targetHeight buf"
    and a: "2 \<le> alphaOf c"
  shows "regionRects st =
           [\<lparr>rx = 0, ry = 0, rw = targetWidth buf, rh = targetHeight buf, colorKey = c\<rparr>]"
    and "colorPaths st = [(c, [rectCommand 0 0 (targetWidth buf) (targetHeight buf)])]"
    and "\<forall>px<targetWidth buf. \<forall>py<targetHeight buf.
           visited_at (visited st) (py * targetWidth buf + px)"
proof -
  let ?n = "targetWidth buf * targetHeight buf"
  let ?vis = "replicate ?n False"
  have n0: "0 < ?n" using w h by simp
  have c0: "data_at (data buf) 0 = c" using d n0 by (simp add: data_at_replicate)
  have nv: "\<not> visited_at (visited (initialState buf)) (0 * targetWidth buf + 0)"
    by (simp add: initialState_def visited_at_fresh)
  have op: "\<not> channel 24 (data_at (data buf) (0 * targetWidth buf + 0)) < 2"
    using a c0 by (simp add: channel_24)
  define marked where
    "marked = markRect (targetWidth buf) 0 0 (targetWidth buf) (targetHeight buf) (?vis, 0::nat)"
  have st: "st = (initialState buf)\<lparr>visited := fst marked, processed := snd marked,
                 colorPaths := pushPath c (rectCommand 0 0 (targetWidth buf) (targetHeight buf))
                                 (colorPaths (initialState buf)),
                 regionRects := regionRects (initialState buf) @
                   [\<lparr>rx = 0, ry = 0, rw = targetWidth buf, rh = targetHeight buf, colorKey = c\<rparr>]\<rparr>"
    unfolding st_def pixelStep_rect [OF nv op]
    using c0 uniform_width [OF d h, of ?n tol] uniform_height [OF d h, of ?n tol]
    by (simp add: initialState_def marked_def)
  show "regionRects st =
           [\<lparr>rx = 0, ry = 0, rw = targetWidth buf, rh = targetHeight buf, colorKey = c\<rparr>]"
    by (simp add: st initialState_def)
  show "colorPaths st = [(c, [rectCommand 0 0 (targetWidth buf) (targetHeight buf)])]"
    by (simp add: st initialState_def pushPath_empty)
  have "\<forall>px<targetWidth buf. \<forall>py. visited_at (fst marked) (py * targetWidth buf + px) =
            (visited_at ?vis (py * targetWidth buf + px) \<or>
             (0 \<le> py \<and> py < 0 + targetHeight buf \<and> 0 \<le> px \<and> px < 0 + targetWidth buf))"
    unfolding marked_def
    using markRect_effect [of ?vis "targetWidth buf" "targetHeight buf" 0 "targetWidth buf" 0
        "targetHeight buf" 0]
    by (simp add: visited_at_fresh)
  then show "\<forall>px<targetWidth buf. \<forall>py<targetHeight buf.
           visited_at (visited st) (py * targetWidth buf + px)"
    by (simp add: st)
qed

subsection \<open>After the last pixel is marked\<close>

lemma settled_step:
  assumes "x < targetWidth buf" "y < targetHeight buf" "settled buf rs ps sk st"
  shows "settled buf rs ps sk (pixelStep buf tol y x st)"
proof -
  have "visited_at (visited st) (y * targetWidth buf + x)"
    using assms by (simp add: settled_def)
  then show ?thesis using assms(3) by (simp add: pixelStep_visited)
qed

lemma settled_log: "settled buf rs ps sk st \<Longrightarrow> settled buf rs ps sk (st\<lparr>progressLog := l\<rparr>)"
  by (simp add: settled_def)

lemma growPhase_first_step:
  assumes w: "0 < targetWidth buf" and h: "0 < targetHeight buf"
    and s: "settled buf rs ps sk (pixelStep buf tol 0 0 (initialState buf))"
  shows "settled buf rs ps sk (growPhase buf tol)"
proof -
  define endY where "endY = min (0 + BATCH_ROWS) (targetHeight buf)"
  define st1 where "st1 = for_loop 0 endY (scanRow buf tol) (initialState buf)"
  define st2 where "st2 = st1\<lparr>progressLog := progressLog st1 @
                     [progressPercent (processed st1) (targetWidth buf * targetHeight buf)]\<rparr>"
  have eq: "growPhase buf tol = runBatches buf tol (0 + BATCH_ROWS) st2"
    unfolding growPhase_def
    using h by (subst runBatches.simps) (simp add: Let_def endY_def st1_def st2_def)
  have e0: "0 < endY" using h by (simp add: endY_def BATCH_ROWS_def)
  have eh: "endY \<le> targetHeight buf" by (simp add: endY_def)
  have step: "\<And>x y t. x < targetWidth buf \<Longrightarrow> y < targetHeight buf \<Longrightarrow>
      settled buf rs ps sk t \<Longrightarrow> settled buf rs ps sk (pixelStep buf tol y x t)"
    by (rule settled_step)
  have row0: "scanRow buf tol 0 (initialState buf) =
      for_loop (Suc 0) (targetWidth buf) (pixelStep buf tol 0) (pixelStep buf tol 0 0 (initialState buf))"
    unfolding scanRow_def using w by (rule for_loop_step)
  have "settled buf rs ps sk (scanRow buf tol 0 (initialState buf))"
    unfolding row0
    by (rule for_loop_preserves [where P = "settled buf rs ps sk", OF s]) (rule step [OF _ h])
  moreover have "st1 = for_loop (Suc 0) endY (scanRow buf tol) (scanRow buf tol 0 (initialState buf))"
    unfolding st1_def using e0 by (rule for_loop_step)
  ultimately have "settled buf rs ps sk st1"
  proof -
    assume a: "settled buf rs ps sk (scanRow buf tol 0 (initialState buf))"
      and b: "st1 = for_loop (Suc 0) endY (scanRow buf tol) (scanRow buf tol 0 (initialState buf))"
    show ?thesis
      unfolding b
    proof (rule for_loop_preserves [where P = "settled buf rs ps sk", OF a])
      fix j t assume j: "Suc 0 \<le> j" "j < endY" and t: "settled buf rs ps sk t"
      have jh: "j < targetHeight buf" using j eh by simp
      show "settled buf rs ps sk (scanRow buf tol j t)"
        unfolding scanRow_def
        by (rule for_loop_preserves [where P = "settled buf rs ps sk", OF t]) (rule step [OF _ jh])
    qed
  qed
  then have s2: "settled buf rs ps sk st2" unfolding st2_def by (rule settled_log)
  show ?thesis
    unfolding eq
  proof (rule runBatches_preserves [where P = "settled buf rs ps sk"])
    show "settled buf rs ps sk st2" by (rule s2)
  next
    fix x y t assume "x < targetWidth buf" "y < targetHeight buf" "settled buf rs ps sk t"
    then show "settled buf rs ps sk (pixelStep buf tol y x t)" by (rule step)
  next
    fix t l assume "settled buf rs ps sk t"
    then show "settled buf rs ps sk (t\<lparr>progressLog := l\<rparr>)" by (rule settled_log)
  qed
qed

lemma pixelStep_opaque_skipped:
  assumes "\<not> channel 24 (data_at (data buf) (y * targetWidth buf + x)) < 2"
  shows "skippedPixels (pixelStep buf tol y x st) = skippedPixels st"
proof (cases "visited_at (visited st) (y * targetWidth buf + x)")
  case True
  then show ?thesis by (simp add: pixelStep_visited)
next
  case False
  show ?thesis by (simp add: pixelStep_rect [OF False assms])
qed

text \<open>
  Claim C3. Tracing a \<open>W\<times>H\<close> buffer (\<open>W\<close>, \<open>H\<close> positive) of one color whose alpha is at
  least 2, in particular of one fully opaque color, gives for every tolerance exactly one
  rectangle, of size \<open>W\<times>H\<close> at (0, 0), one path group, and a document with exactly one shape
  element, whose path data is the one bled rectangle command. The source writes the
  command without blanks: \<^verbatim>\<open>M-0.2,-0.2h\<close>\<open>W\<close>\<^verbatim>\<open>.4v\<close>\<open>H\<close>\<^verbatim>\<open>.4h-\<close>\<open>W\<close>\<^verbatim>\<open>.4z\<close>.
\<close>

theorem uniform_image:
  assumes "data buf = replicate (targetWidth buf * targetHeight buf) c"
    and "0 < targetWidth buf" and "0 < targetHeight buf"
    and "2 \<le> alphaOf c"
  shows "regionRects (growPhase buf tol) =
           [\<lparr>rx = 0, ry = 0, rw = targetWidth buf, rh = targetHeight buf, colorKey = c\<rparr>]
       \<and> colorPaths (growPhase buf tol) =
           [(c, [''M-0.2,-0.2h'' @ showNat (targetWidth buf) @ ''.4v'' @
                 showNat (targetHeight buf) @ ''.4h-'' @ showNat (targetWidth buf) @ ''.4z''])]
       \<and> svgDocument (targetWidth buf) (targetHeight buf) (colorPaths (growPhase buf tol)) =
           svgOpen (targetWidth buf) (targetHeight buf) @
           ''<path d='' @ dq @
             ''M-0.2,-0.2h'' @ showNat (targetWidth buf) @ ''.4v'' @
             showNat (targetHeight buf) @ ''.4h-'' @ showNat (targetWidth buf) @ ''.4z'' @ dq @
           '' fill='' @ dq @ rgbaString c @ dq @
           '' stroke='' @ dq @ rgbaString c @ dq @
           '' stroke-width='' @ dq @ ''0.5'' @ dq @
           '' stroke-linejoin='' @ dq @ ''round'' @ dq @ '' />'' @
           svgClose"
proof -
  let ?R = "\<lparr>rx = 0, ry = 0, rw = targetWidth buf, rh = targetHeight buf, colorKey = c\<rparr>"
  let ?cmd = "rectCommand 0 0 (targetWidth buf) (targetHeight buf)"
  have "data_at (data buf) (0 * targetWidth buf + 0) = c"
    using assms(1,2,3) by (simp add: data_at_replicate)
  then have "\<not> channel 24 (data_at (data buf) (0 * targetWidth buf + 0)) < 2"
    using assms(4) by (simp add: channel_24)
  then have "skippedPixels (pixelStep buf tol 0 0 (initialState buf)) = []"
    by (simp add: pixelStep_opaque_skipped initialState_def)
  then have "settled buf [?R] [(c, [?cmd])] [] (pixelStep buf tol 0 0 (initialState buf))"
    unfolding settled_def
    using uniform_first_step [OF assms, of tol]
    by simp
  then have "settled buf [?R] [(c, [?cmd])] [] (growPhase buf tol)"
    by (rule growPhase_first_step [OF assms(2,3)])
  then have r: "regionRects (growPhase buf tol) = [?R]"
    and p: "colorPaths (growPhase buf tol) = [(c, [?cmd])]"
    by (simp_all add: settled_def)
  show ?thesis
    unfolding r p
    by (simp add: svgDocument_def pathElement_def Let_def rectCommand_origin)
qed

theorem uniform_image_witness:
  "data uniformBuffer = replicate (targetWidth uniformBuffer * targetHeight uniformBuffer) 0xFF336699
   \<and> 0 < targetWidth uniformBuffer \<and> 0 < targetHeight uniformBuffer
   \<and> 2 \<le> alphaOf 0xFF336699
   \<and> regionRects (growPhase uniformBuffer 1) =
        [\<lparr>rx = 0, ry = 0, rw = 3, rh = 2, colorKey = 0xFF336699\<rparr>]
   \<and> colorPaths (growPhase uniformBuffer 1) = [(0xFF336699, [''M-0.2,-0.2h3.4v2.4h-3.4z''])]"
proof -
  have d: "data uniformBuffer =
      replicate (targetWidth uniformBuffer * targetHeight uniformBuffer) 0xFF336699"
    by (simp add: uniformBuffer_def)
  have w: "0 < targetWidth uniformBuffer" and h: "0 < targetHeight uniformBuffer"
    by (simp_all add: uniformBuffer_def)
  have a: "2 \<le> alphaOf 0xFF336699" by (simp add: alphaOf_def)
  have s3: "showNat 3 = ''3''" and s2: "showNat 2 = ''2''"
    by (subst showNat.simps, simp add: digitChar_def)+
  have dims: "targetWidth uniformBuffer = 3" "targetHeight uniformBuffer = 2"
    by (simp_all add: uniformBuffer_def)
  show ?thesis
    using d w h a uniform_image [OF d w h a, of 1]
    by (simp add: dims s3 s2)
qed

subsection \<open>Transparent pixels\<close>

lemma both_transparent_similar:
  "alphaOf c1 < 2 \<Longrightarrow> alphaOf c2 < 2 \<Longrightarrow> isColorSimilar c1 c2 tol"
  by (simp add: isColorSimilar_def Let_def channel_24)

lemma pixelStep_keys_opaque:
  assumes P: "\<forall>r\<in>set (regionRects st). 2 \<le> alphaOf (colorKey r)"
  shows "\<forall>r\<in>set (regionRects (pixelStep buf tol y x st)). 2 \<le> alphaOf (colorKey r)"
proof (cases "visited_at (visited st) (y * targetWidth buf + x)")
  case True
  then show ?thesis using P by (simp add: pixelStep_visited)
next
  case nv: False
  show ?thesis
  proof (cases "channel 24 (data_at (data buf) (y * targetWidth buf + x)) < 2")
    case True
    then show ?thesis using P by (simp add: pixelStep_skip [OF nv True])
  next
    case False
    then have "2 \<le> alphaOf (data_at (data buf) (y * targetWidth buf + x))"
      by (simp add: channel_24)
    then show ?thesis
      using P by (simp add: pixelStep_rect [OF nv False])
  qed
qed

lemma rects_keys_opaque:
  "\<forall>r\<in>set (regionRects (growPhase buf tol)). 2 \<le> alphaOf (colorKey r)"
proof (rule growPhase_preserves)
  show "\<forall>r\<in>set (regionRects (initialState buf)). 2 \<le> alphaOf (colorKey r)"
    by (simp add: initialState_def)
next
  fix x y and t :: trace_state
  assume "\<forall>r\<in>set (regionRects t). 2 \<le> alphaOf (colorKey r)"
  then show "\<forall>r\<in>set (regionRects (pixelStep buf tol y x t)). 2 \<le> alphaOf (colorKey r)"
    by (rule pixelStep_keys_opaque)
next
  fix t :: trace_state and l
  assume "\<forall>r\<in>set (regionRects t). 2 \<le> alphaOf (colorKey r)"
  then show "\<forall>r\<in>set (regionRects (t\<lparr>progressLog := l\<rparr>)). 2 \<le> alphaOf (colorKey r)"
    by simp
qed

lemma alphaOf_zero: "alphaOf 0 = 0"
  by (simp add: alphaOf_def)

lemma transparent_data_at:
  assumes "\<forall>c\<in>set (data buf). alphaOf c < 2"
  shows "alphaOf (data_at (data buf) i) < 2"
  using assms by (simp add: data_at_def alphaOf_zero)

lemma transparent_step:
  assumes tr: "\<forall>c\<in>set (data buf). alphaOf c < 2"
    and P: "regionRects st = [] \<and> colorPaths st = []"
  shows "regionRects (pixelStep buf tol y x st) = [] \<and> colorPaths (pixelStep buf tol y x st) = []"
proof (cases "visited_at (visited st) (y * targetWidth buf + x)")
  case True
  then show ?thesis using P by (simp add: pixelStep_visited)
next
  case nv: False
  have "channel 24 (data_at (data buf) (y * targetWidth buf + x)) < 2"
    using transparent_data_at [OF tr] by (simp add: channel_24)
  then show ?thesis using P by (simp add: pixelStep_skip [OF nv])
qed

lemma transparent_buffer:
  assumes tr: "\<forall>c\<in>set (data buf). alphaOf c < 2"
  shows "regionRects (growPhase buf tol) = [] \<and> colorPaths (growPhase buf tol) = []"
proof (rule growPhase_preserves)
  show "regionRects (initialState buf) = [] \<and> colorPaths (initialState buf) = []"
    by (simp add: initialState_def)
next
  fix x y and t :: trace_state
  assume "regionRects t = [] \<and> colorPaths t = []"
  then show "regionRects (pixelStep buf tol y x t) = [] \<and> colorPaths (pixelStep buf tol y x t) = []"
    by (rule transparent_step [OF tr])
next
  fix t :: trace_state and l
  assume "regionRects t = [] \<and> colorPaths t = []"
  then show "regionRects (t\<lparr>progressLog := l\<rparr>) = [] \<and> colorPaths (t\<lparr>progressLog := l\<rparr>) = []"
    by simp
qed

lemma growPhase_cells: "set (coveredCells (growPhase buf tol)) = gridCells buf"
proof -
  have "traceInv buf (growPhase buf tol)"
    and "\<And>px py. px < targetWidth buf \<Longrightarrow> py < targetHeight buf \<Longrightarrow>
            (px, py) \<in> set (coveredCells (growPhase buf tol))"
    using growPhase_inv [of buf tol] by simp_all
  then show ?thesis
    by (auto simp add: traceInv_def gridCells_def)
qed

lemma pushPath_keys: "fst ` set (pushPath color cmd paths) = insert color (fst ` set paths)"
proof -
  have m: "\<And>ps. fst ` set (map (\<lambda>(k, ds). if k = color then (k, ds @ [cmd]) else (k, ds)) ps)
              = fst ` set ps"
    by (force simp add: image_iff split: prod.splits if_splits)
  show ?thesis
  proof (cases "map_of paths color = None")
    case True
    then show ?thesis unfolding pushPath_def Let_def m by simp
  next
    case False
    then have "color \<in> fst ` set paths" by (simp add: map_of_eq_None_iff)
    then show ?thesis using False unfolding pushPath_def Let_def m by auto
  qed
qed

lemma pixelStep_path_keys_opaque:
  assumes P: "\<forall>k\<in>fst ` set (colorPaths st). 2 \<le> alphaOf k"
  shows "\<forall>k\<in>fst ` set (colorPaths (pixelStep buf tol y x st)). 2 \<le> alphaOf k"
proof (cases "visited_at (visited st) (y * targetWidth buf + x)")
  case True
  then show ?thesis using P by (simp add: pixelStep_visited)
next
  case nv: False
  show ?thesis
  proof (cases "channel 24 (data_at (data buf) (y * targetWidth buf + x)) < 2")
    case True
    then show ?thesis using P by (simp add: pixelStep_skip [OF nv True])
  next
    case False
    then have "2 \<le> alphaOf (data_at (data buf) (y * targetWidth buf + x))"
      by (simp add: channel_24)
    then show ?thesis
      using P by (simp add: pixelStep_rect [OF nv False] pushPath_keys)
  qed
qed

lemma path_keys_opaque:
  "\<forall>k\<in>fst ` set (colorPaths (growPhase buf tol)). 2 \<le> alphaOf k"
proof (rule growPhase_preserves)
  show "\<forall>k\<in>fst ` set (colorPaths (initialState buf)). 2 \<le> alphaOf k"
    by (simp add: initialState_def)
next
  fix x y and t :: trace_state
  assume "\<forall>k\<in>fst ` set (colorPaths t). 2 \<le> alphaOf k"
  then show "\<forall>k\<in>fst ` set (colorPaths (pixelStep buf tol y x t)). 2 \<le> alphaOf k"
    by (rule pixelStep_path_keys_opaque)
next
  fix t :: trace_state and l
  assume "\<forall>k\<in>fst ` set (colorPaths t). 2 \<le> alphaOf k"
  then show "\<forall>k\<in>fst ` set (colorPaths (t\<lparr>progressLog := l\<rparr>)). 2 \<le> alphaOf k"
    by simp
qed

text \<open>
  Claim C9, as the code has it. A pixel with alpha below 2 that the scan reaches unvisited
  is marked visited and adds no rectangle and no path, whatever its color channels and the
  tolerance; no rectangle is anchored at a color with alpha below 2 and no path group is
  keyed by one. Two colors with alpha below 2 are similar for every tolerance. In a buffer
  whose pixels all have alpha below 2 every pixel is skipped, one by one, no rectangle is
  committed, and the document has no shape element.
\<close>

theorem transparent_pixels:
  "(\<not> visited_at (visited st) (y * targetWidth buf + x)
      \<and> alphaOf (data_at (data buf) (y * targetWidth buf + x)) < 2 \<longrightarrow>
      pixelStep buf tol y x st =
        st\<lparr>visited := (visited st)[y * targetWidth buf + x := True],
           processed := Suc (processed st),
           skippedPixels := skippedPixels st @ [(x, y)]\<rparr>)
   \<and> (\<forall>r\<in>set (regionRects (growPhase buf tol)). 2 \<le> alphaOf (colorKey r))
   \<and> (\<forall>k\<in>fst ` set (colorPaths (growPhase buf tol)). 2 \<le> alphaOf k)
   \<and> (alphaOf c1 < 2 \<and> alphaOf c2 < 2 \<longrightarrow> isColorSimilar c1 c2 tol)
   \<and> ((\<forall>c\<in>set (data buf). alphaOf c < 2) \<longrightarrow>
        regionRects (growPhase buf tol) = []
        \<and> colorPaths (growPhase buf tol) = []
        \<and> set (skippedPixels (growPhase buf tol)) = gridCells buf
        \<and> svgDocument (targetWidth buf) (targetHeight buf) (colorPaths (growPhase buf tol)) =
            svgOpen (targetWidth buf) (targetHeight buf) @ svgClose)"
proof (intro conjI impI)
  assume "\<not> visited_at (visited st) (y * targetWidth buf + x)
      \<and> alphaOf (data_at (data buf) (y * targetWidth buf + x)) < 2"
  then show "pixelStep buf tol y x st =
        st\<lparr>visited := (visited st)[y * targetWidth buf + x := True],
           processed := Suc (processed st),
           skippedPixels := skippedPixels st @ [(x, y)]\<rparr>"
    by (simp add: pixelStep_skip channel_24)
next
  show "\<forall>r\<in>set (regionRects (growPhase buf tol)). 2 \<le> alphaOf (colorKey r)"
    by (rule rects_keys_opaque)
next
  show "\<forall>k\<in>fst ` set (colorPaths (growPhase buf tol)). 2 \<le> alphaOf k"
    by (rule path_keys_opaque)
next
  assume "alphaOf c1 < 2 \<and> alphaOf c2 < 2"
  then show "isColorSimilar c1 c2 tol" by (simp add: both_transparent_similar)
next
  assume tr: "\<forall>c\<in>set (data buf). alphaOf c < 2"
  show "regionRects (growPhase buf tol) = []" using transparent_buffer [OF tr] by simp
  show "colorPaths (growPhase buf tol) = []" using transparent_buffer [OF tr] by simp
  then show "svgDocument (targetWidth buf) (targetHeight buf) (colorPaths (growPhase buf tol)) =
            svgOpen (targetWidth buf) (targetHeight buf) @ svgClose"
    by (simp add: svgDocument_def)
  show "set (skippedPixels (growPhase buf tol)) = gridCells buf"
    using growPhase_cells [of buf tol] transparent_buffer [OF tr, of tol]
    by (simp add: coveredCells_def)
qed

theorem transparent_pixels_witness:
  "\<not> visited_at (visited (initialState clearBuffer)) (0 * targetWidth clearBuffer + 0)
   \<and> alphaOf (data_at (data clearBuffer) (0 * targetWidth clearBuffer + 0)) < 2
   \<and> regionRects (pixelStep clearBuffer 0 0 0 (initialState clearBuffer)) = []
   \<and> colorPaths (pixelStep clearBuffer 0 0 0 (initialState clearBuffer)) = []
   \<and> skippedPixels (pixelStep clearBuffer 0 0 0 (initialState clearBuffer)) = [(0, 0)]
   \<and> \<lparr>rx = 1, ry = 1, rw = 1, rh = 2, colorKey = 0xFF0000FF\<rparr>
        \<in> set (regionRects (growPhase stripesBuffer 0))
   \<and> 2 \<le> alphaOf 0xFF0000FF
   \<and> 0xFF0000FF \<in> fst ` set (colorPaths (growPhase stripesBuffer 0))
   \<and> alphaOf 0x00112233 < 2 \<and> alphaOf 0x01445566 < 2
   \<and> isColorSimilar 0x00112233 0x01445566 0
   \<and> list_all (\<lambda>c. alphaOf c < 2) (data clearBuffer)
   \<and> regionRects (growPhase clearBuffer 0) = []
   \<and> skippedPixels (growPhase clearBuffer 0) = [(0, 0), (1, 0)]
   \<and> svgDocument 2 1 (colorPaths (growPhase clearBuffer 0)) = svgOpen 2 1 @ svgClose"
proof -
  have nv: "\<not> visited_at (visited (initialState clearBuffer)) (0 * targetWidth clearBuffer + 0)"
    by (simp add: initialState_def visited_at_def clearBuffer_def)
  have a0: "alphaOf (data_at (data clearBuffer) (0 * targetWidth clearBuffer + 0)) < 2"
    by (simp add: clearBuffer_def data_at_def alphaOf_def)
  have r: "\<lparr>rx = 1, ry = 1, rw = 1, rh = 2, colorKey = 0xFF0000FF\<rparr>
        \<in> set (regionRects (growPhase stripesBuffer 0))"
    by code_simp
  have k: "0xFF0000FF \<in> fst ` set (colorPaths (growPhase stripesBuffer 0))"
    by code_simp
  have c1: "alphaOf 0x00112233 < 2" and c2: "alphaOf 0x01445566 < 2"
    by (simp_all add: alphaOf_def)
  have tr: "\<forall>c\<in>set (data clearBuffer). alphaOf c < 2"
    by (simp add: clearBuffer_def alphaOf_def)
  have sk: "skippedPixels (growPhase clearBuffer 0) = [(0, 0), (1, 0)]"
    by code_simp
  have dims: "targetWidth clearBuffer = 2" "targetHeight clearBuffer = 1"
    by (simp_all add: clearBuffer_def)
  note t1 = transparent_pixels [of "initialState clearBuffer" 0 clearBuffer 0 0 "0x00112233" "0x01445566"]
  note t2 = transparent_pixels [of "initialState stripesBuffer" 0 stripesBuffer 0 0 0 0]
  have step: "pixelStep clearBuffer 0 0 0 (initialState clearBuffer) =
      (initialState clearBuffer)\<lparr>visited := (visited (initialState clearBuffer))[0 * targetWidth clearBuffer + 0 := True],
           processed := Suc (processed (initialState clearBuffer)),
           skippedPixels := skippedPixels (initialState clearBuffer) @ [(0, 0)]\<rparr>"
    using t1 nv a0 by blast
  have s1: "regionRects (pixelStep clearBuffer 0 0 0 (initialState clearBuffer)) = []"
    "colorPaths (pixelStep clearBuffer 0 0 0 (initialState clearBuffer)) = []"
    "skippedPixels (pixelStep clearBuffer 0 0 0 (initialState clearBuffer)) = [(0, 0)]"
    unfolding step by (simp_all add: initialState_def)
  have op: "2 \<le> alphaOf 0xFF0000FF" using t2 r by force
  have sim: "isColorSimilar 0x00112233 0x01445566 0" using t1 c1 c2 by blast
  have "regionRects (growPhase clearBuffer 0) = []"
    "svgDocument (targetWidth clearBuffer) (targetHeight clearBuffer)
       (colorPaths (growPhase clearBuffer 0)) =
     svgOpen (targetWidth clearBuffer) (targetHeight clearBuffer) @ svgClose"
    using t1 tr by blast+
  then have all: "regionRects (growPhase clearBuffer 0) = []"
    "svgDocument 2 1 (colorPaths (growPhase clearBuffer 0)) = svgOpen 2 1 @ svgClose"
    unfolding dims by simp_all
  have la: "list_all (\<lambda>c. alphaOf c < 2) (data clearBuffer)"
    using tr by (simp add: list_all_iff)
  show ?thesis
    using nv a0 s1 r op k c1 c2 sim la all sk by simp
qed

text \<open>
  Claim C9 as stated fails. A pixel with alpha below 2 can lie inside a rectangle grown
  from a neighbouring anchor whose alpha is at least 2: at tolerance 1 next to an anchor
  of alpha 2 with the same color channels, and at tolerance 255 next to any anchor. The
  rectangle then covers the pixel and the pixel is not skipped.
\<close>

theorem transparent_pixels_counterexample:
  "alphaOf (data faintBuffer ! 1) < 2
   \<and> regionRects (growPhase faintBuffer 1) =
        [\<lparr>rx = 0, ry = 0, rw = 2, rh = 1, colorKey = 0x02000000\<rparr>]
   \<and> (1, 0) \<in> set (rectCells \<lparr>rx = 0, ry = 0, rw = 2, rh = 1, colorKey = 0x02000000\<rparr>)
   \<and> skippedPixels (growPhase faintBuffer 1) = []
   \<and> alphaOf (data overlayBuffer ! 1) < 2
   \<and> regionRects (growPhase overlayBuffer 255) =
        [\<lparr>rx = 0, ry = 0, rw = 2, rh = 1, colorKey = 0xFF0000FF\<rparr>]
   \<and> colorPaths (growPhase overlayBuffer 255) = [(0xFF0000FF, [''M-0.2,-0.2h2.4v1.4h-2.4z''])]
   \<and> skippedPixels (growPhase overlayBuffer 255) = []"
proof -
  have "alphaOf (data faintBuffer ! 1) < 2" "alphaOf (data overlayBuffer ! 1) < 2"
    by (simp_all add: faintBuffer_def overlayBuffer_def alphaOf_def)
  moreover have "regionRects (growPhase faintBuffer 1) =
        [\<lparr>rx = 0, ry = 0, rw = 2, rh = 1, colorKey = 0x02000000\<rparr>]"
    by code_simp
  moreover have "(1, 0) \<in> set (rectCells \<lparr>rx = 0, ry = 0, rw = 2, rh = 1, colorKey = 0x02000000\<rparr>)"
    by (simp add: set_rectCells)
  moreover have "skippedPixels (growPhase faintBuffer 1) = []"
    by code_simp
  moreover have "regionRects (growPhase overlayBuffer 255) =
        [\<lparr>rx = 0, ry = 0, rw = 2, rh = 1, colorKey = 0xFF0000FF\<rparr>]"
    by code_simp
  moreover have "colorPaths (growPhase overlayBuffer 255) = [(0xFF0000FF, [''M-0.2,-0.2h2.4v1.4h-2.4z''])]"
    by code_simp
  moreover have "skippedPixels (growPhase overlayBuffer 255) = []"
    by code_simp
  ultimately show ?thesis by simp
qed

subsection \<open>Path groups and the commit log\<close>

lemma firstOccurrences_snoc:
  "firstOccurrences (xs @ [x]) =
     (if x \<in> set xs then firstOccurrences xs else firstOccurrences xs @ [x])"
  by (simp add: firstOccurrences_def)

lemma set_firstOccurrences: "set (firstOccurrences xs) = set xs"
  by (simp add: firstOccurrences_def)

lemma distinct_firstOccurrences: "distinct (firstOccurrences xs)"
  by (simp add: firstOccurrences_def)

lemma keys_groupByColor: "map fst (groupByColor rs) = firstOccurrences (map colorKey rs)"
  by (simp add: groupByColor_def comp_def)

lemma map_of_groupByColor_None:
  "(map_of (groupByColor rs) c = None) = (c \<notin> colorKey ` set rs)"
proof -
  have "(map_of (groupByColor rs) c = None) = (c \<notin> set (map fst (groupByColor rs)))"
    by (simp add: map_of_eq_None_iff)
  then show ?thesis
    by (simp only: keys_groupByColor set_firstOccurrences set_map)
qed

lemma pushPath_groupByColor:
  "pushPath (colorKey r) (bledCommand r) (groupByColor rs) = groupByColor (rs @ [r])"
proof (cases "colorKey r \<in> colorKey ` set rs")
  case True
  then have some: "map_of (groupByColor rs) (colorKey r) \<noteq> None"
    by (simp add: map_of_groupByColor_None)
  have keys: "firstOccurrences (map colorKey (rs @ [r])) = firstOccurrences (map colorKey rs)"
    using True by (simp add: firstOccurrences_snoc)
  show ?thesis
    using some
    unfolding pushPath_def Let_def groupByColor_def keys
    by (auto simp add: comp_def)
next
  case False
  then have none: "map_of (groupByColor rs) (colorKey r) = None"
    by (simp add: map_of_groupByColor_None)
  have keys: "firstOccurrences (map colorKey (rs @ [r])) =
              firstOccurrences (map colorKey rs) @ [colorKey r]"
    using False by (simp add: firstOccurrences_snoc)
  have nokey: "filter (\<lambda>q. colorKey q = colorKey r) rs = []"
  proof -
    have "\<And>q. q \<in> set rs \<Longrightarrow> colorKey q \<noteq> colorKey r"
      using False by (metis imageI)
    then show ?thesis by (simp add: filter_empty_conv)
  qed
  have old: "\<And>c. c \<in> set (firstOccurrences (map colorKey rs)) \<Longrightarrow> c \<noteq> colorKey r"
  proof -
    fix c assume "c \<in> set (firstOccurrences (map colorKey rs))"
    then have "c \<in> colorKey ` set rs" by (simp only: set_firstOccurrences set_map)
    then show "c \<noteq> colorKey r" using False by blast
  qed
  show ?thesis
    using none old
    unfolding pushPath_def Let_def groupByColor_def keys
    by (auto simp add: comp_def nokey)
qed

subsection \<open>The printed numbers\<close>

lemma showTenths_decimal: "showTenths t = decimalText (of_int t / 10)"
proof -
  have a: "\<bar>(of_int t :: rat) / 10\<bar> = of_int \<bar>t\<bar> / 10" by simp
  have f: "\<lfloor>(of_int \<bar>t\<bar> :: rat) / 10\<rfloor> = \<bar>t\<bar> div 10"
    using floor_divide_of_int_eq [of "\<bar>t\<bar>" 10, where ?'a = rat] by simp
  have n1: "nat (\<bar>t\<bar> div 10) = nat \<bar>t\<bar> div 10" by (simp add: nat_div_distrib)
  have n2: "nat (\<bar>t\<bar> mod 10) = nat \<bar>t\<bar> mod 10" by (simp add: nat_mod_distrib)
  have "(of_int \<bar>t\<bar> :: rat) / 10 * 10 = of_int \<bar>t\<bar>" by simp
  then have m: "\<lfloor>(of_int \<bar>t\<bar> :: rat) / 10 * 10\<rfloor> = \<bar>t\<bar>" by (simp only: floor_of_int)
  have s: "((of_int t :: rat) / 10 < 0) = (t < 0)" by simp
  show ?thesis
    unfolding showTenths_def decimalText_def a f m s Let_def n1 n2 ..
qed

lemma rectCommand_bled:
  "rectCommand x y w h = bledCommand \<lparr>rx = x, ry = y, rw = w, rh = h, colorKey = c\<rparr>"
proof -
  have a: "\<And>n. (of_int (10 * int n - 2) :: rat) / 10 = of_nat n - 1 / 5" by simp
  have b: "\<And>n. (of_int (10 * int n + 4) :: rat) / 10 = of_nat n + 2 / 5" by simp
  show ?thesis
    unfolding rectCommand_def bledCommand_def showTenths_decimal a b by simp
qed

lemma digitChar_mod: "digitChar (d mod 10) = digitChar d"
  by (simp add: digitChar_def)

lemma digitChar_0: "digitChar 0 = CHR ''0''"
  by (simp add: digitChar_def)

lemma showNat_digit: "n < 10 \<Longrightarrow> showNat n = [digitChar n]"
  by (subst showNat.simps) simp

lemma showNat_snoc: "10 \<le> n \<Longrightarrow> showNat n = showNat (n div 10) @ [digitChar (n mod 10)]"
  by (subst showNat.simps) simp

lemma replicate_zeros:
  "replicate 3 c = [c, c, c]" "replicate 2 c = [c, c]" "replicate (Suc 0) c = [c]"
  by (simp_all add: numeral_3_eq_3 numeral_2_eq_2)

lemma four_digits:
  assumes "m < 10000"
  shows "replicate (4 - length (showNat m)) (CHR ''0'') @ showNat m =
         [digitChar (m div 1000 mod 10), digitChar (m div 100 mod 10),
          digitChar (m div 10 mod 10), digitChar (m mod 10)]"
proof -
  consider "m < 10" | "10 \<le> m" "m < 100" | "100 \<le> m" "m < 1000" | "1000 \<le> m"
    by linarith
  then show ?thesis
  proof cases
    case 1
    then show ?thesis
      by (simp add: showNat_digit digitChar_0 replicate_zeros)
  next
    case 2
    then have "m div 10 < 10" by simp
    then show ?thesis using 2
      by (simp add: showNat_snoc showNat_digit digitChar_0 digitChar_mod replicate_zeros)
  next
    case 3
    then have a: "m div 10 div 10 < 10" "10 \<le> m div 10" by simp_all
    have d: "m div 100 = m div 10 div 10" by (simp add: div_mult2_eq [symmetric])
    show ?thesis using 3 a
      by (simp add: showNat_snoc [of m] showNat_snoc [of "m div 10"] showNat_digit d
          digitChar_0 digitChar_mod replicate_zeros)
  next
    case 4
    then have a: "m div 10 div 10 div 10 < 10" "10 \<le> m div 10" "10 \<le> m div 10 div 10"
      using assms by simp_all
    have d: "m div 100 = m div 10 div 10" "m div 1000 = m div 10 div 10 div 10"
      by (simp_all add: div_mult2_eq [symmetric])
    show ?thesis using 4 a
      by (simp add: showNat_snoc [of m] showNat_snoc [of "m div 10"]
          showNat_snoc [of "m div 10 div 10"] showNat_digit d digitChar_mod)
  qed
qed

lemma digit_mod:
  fixes n p c :: nat
  assumes "0 < p"
  shows "n mod (p * (10 * c)) div p mod 10 = n div p mod 10"
proof -
  have "n mod (p * (10 * c)) = p * (n div p mod (10 * c)) + n mod p"
    by (rule mod_mult2_eq)
  then have "n mod (p * (10 * c)) div p = n div p mod (10 * c)"
    using assms by simp
  then show ?thesis by (simp add: mod_mod_cancel)
qed

lemma toFixed4_fraction:
  assumes "0 \<le> a"
  shows "toFixed4 a = fractionText (of_int a / 255)"
proof -
  have "(of_int a :: rat) / 255 * 10000 + 1 / 2 = of_int (a * 20000 + 255) / of_int 510"
    by (simp add: field_simps)
  then have f: "\<lfloor>(of_int a :: rat) / 255 * 10000 + 1 / 2\<rfloor> = (a * 20000 + 255) div 510"
    by (simp only: floor_divide_of_int_eq)
  define n where "n = nat ((a * 20000 + 255) div 510)"
  have d: "n div 1000 mod 10 = n mod 10000 div 1000 mod 10"
          "n div 100 mod 10 = n mod 10000 div 100 mod 10"
          "n div 10 mod 10 = n mod 10000 div 10 mod 10"
          "n mod 10 = n mod 10000 mod 10"
    using digit_mod [of 1000 n 1] digit_mod [of 100 n 10] digit_mod [of 10 n 100]
    by (simp_all add: mod_mod_cancel)
  have "n mod 10000 < 10000" by simp
  note four_digits [OF this]
  then show ?thesis
    unfolding toFixed4_def fractionText_def f Let_def n_def [symmetric] d by simp
qed

lemma pixelStep_groups:
  assumes P: "colorPaths st = groupByColor (regionRects st)"
  shows "colorPaths (pixelStep buf tol y x st) = groupByColor (regionRects (pixelStep buf tol y x st))"
proof (cases "visited_at (visited st) (y * targetWidth buf + x)")
  case True
  then show ?thesis using P by (simp add: pixelStep_visited)
next
  case nv: False
  show ?thesis
  proof (cases "channel 24 (data_at (data buf) (y * targetWidth buf + x)) < 2")
    case True
    then show ?thesis using P by (simp add: pixelStep_skip [OF nv True])
  next
    case False
    define r where "r = \<lparr>rx = x, ry = y,
        rw = growWidth buf (visited st) tol x (y * targetWidth buf + x)
               (data_at (data buf) (y * targetWidth buf + x)) 0,
        rh = growHeight buf (visited st) tol x y (data_at (data buf) (y * targetWidth buf + x))
               (growWidth buf (visited st) tol x (y * targetWidth buf + x)
                 (data_at (data buf) (y * targetWidth buf + x)) 0) 1,
        colorKey = data_at (data buf) (y * targetWidth buf + x)\<rparr>"
    have "pushPath (colorKey r) (bledCommand r) (groupByColor (regionRects st)) =
          groupByColor (regionRects st @ [r])"
      by (rule pushPath_groupByColor)
    moreover have "rectCommand x y (rw r) (rh r) = bledCommand r"
      unfolding r_def by (simp add: rectCommand_bled)
    ultimately show ?thesis
      by (simp add: pixelStep_rect [OF nv False] P r_def)
  qed
qed

lemma growPhase_groups:
  "colorPaths (growPhase buf tol) = groupByColor (regionRects (growPhase buf tol))"
proof (rule growPhase_preserves)
  show "colorPaths (initialState buf) = groupByColor (regionRects (initialState buf))"
    by (simp add: initialState_def groupByColor_def firstOccurrences_def)
next
  fix x y and t :: trace_state
  assume "colorPaths t = groupByColor (regionRects t)"
  then show "colorPaths (pixelStep buf tol y x t) = groupByColor (regionRects (pixelStep buf tol y x t))"
    by (rule pixelStep_groups)
next
  fix t :: trace_state and l
  assume "colorPaths t = groupByColor (regionRects t)"
  then show "colorPaths (t\<lparr>progressLog := l\<rparr>) = groupByColor (regionRects (t\<lparr>progressLog := l\<rparr>))"
    by simp
qed

lemma rgbaString_spec: "rgbaString c = specRgba c"
proof -
  have "toFixed4 (alphaOf c) = fractionText (of_int (alphaOf c) / 255)"
    using alphaOf_range [of c] by (simp add: toFixed4_fraction)
  then show ?thesis
    by (simp add: rgbaString_def specRgba_def Let_def lowByte_eq channel_8 channel_16 channel_24)
qed

lemma pathElement_group:
  "map pathElement (groupByColor rs) = specShapes rs"
  by (simp add: groupByColor_def specShapes_def pathElement_def specShape_def Let_def
      rgbaString_spec comp_def dq_def)

subsection \<open>The root element\<close>

lemma svgOpen_viewBox:
  "sublist (''viewBox='' @ dq @ ''0 0 '' @ showNat w @ '' '' @ showNat h @ dq) (svgOpen w h)"
proof -
  have "svgOpen w h =
      (''<svg '' @ nl @ ''    xmlns='' @ dq @ ''http://www.w3.org/2000/svg'' @ dq @ '' '' @ nl @ ''    '') @
      (''viewBox='' @ dq @ ''0 0 '' @ showNat w @ '' '' @ showNat h @ dq) @
      ('' '' @ nl @
       ''    width='' @ dq @ showNat w @ dq @ '' '' @ nl @
       ''    height='' @ dq @ showNat h @ dq @ nl @
       ''    shape-rendering='' @ dq @ ''crispEdges'' @ dq @ nl @
       ''    style='' @ dq @
       ''background:transparent; display:block; image-rendering: -webkit-optimize-contrast; pointer-events: none;''
       @ dq @ nl @ ''  >'' @ nl @ ''    '')"
    by (simp add: svgOpen_def)
  then show ?thesis unfolding sublist_def by blast
qed

lemma svgOpen_width:
  "sublist ('' width='' @ dq @ showNat w @ dq) (svgOpen w h)"
proof -
  have "svgOpen w h =
      (''<svg '' @ nl @ ''    xmlns='' @ dq @ ''http://www.w3.org/2000/svg'' @ dq @ '' '' @ nl @
       ''    viewBox='' @ dq @ ''0 0 '' @ showNat w @ '' '' @ showNat h @ dq @ '' '' @ nl @ ''   '') @
      ('' width='' @ dq @ showNat w @ dq) @
      ('' '' @ nl @
       ''    height='' @ dq @ showNat h @ dq @ nl @
       ''    shape-rendering='' @ dq @ ''crispEdges'' @ dq @ nl @
       ''    style='' @ dq @
       ''background:transparent; display:block; image-rendering: -webkit-optimize-contrast; pointer-events: none;''
       @ dq @ nl @ ''  >'' @ nl @ ''    '')"
    by (simp add: svgOpen_def)
  then show ?thesis unfolding sublist_def by blast
qed

lemma svgOpen_height:
  "sublist ('' height='' @ dq @ showNat h @ dq) (svgOpen w h)"
proof -
  have "svgOpen w h =
      (''<svg '' @ nl @ ''    xmlns='' @ dq @ ''http://www.w3.org/2000/svg'' @ dq @ '' '' @ nl @
       ''    viewBox='' @ dq @ ''0 0 '' @ showNat w @ '' '' @ showNat h @ dq @ '' '' @ nl @
       ''    width='' @ dq @ showNat w @ dq @ '' '' @ nl @ ''   '') @
      ('' height='' @ dq @ showNat h @ dq) @
      (nl @
       ''    shape-rendering='' @ dq @ ''crispEdges'' @ dq @ nl @
       ''    style='' @ dq @
       ''background:transparent; display:block; image-rendering: -webkit-optimize-contrast; pointer-events: none;''
       @ dq @ nl @ ''  >'' @ nl @ ''    '')"
    by (simp add: svgOpen_def)
  then show ?thesis unfolding sublist_def by blast
qed

lemma length_firstOccurrences: "length (firstOccurrences xs) = card (set xs)"
  using distinct_card [OF distinct_firstOccurrences, of xs]
  by (simp add: set_firstOccurrences)

subsection \<open>The document of a two-color buffer\<close>

lemma showNat_small:
  "showNat 0 = ''0''" "showNat 1 = ''1''" "showNat (Suc 0) = ''1''" "showNat 2 = ''2''"
  "showNat 3 = ''3''"
  by (simp_all add: showNat_digit digitChar_def)

lemma showNat_255: "showNat 255 = ''255''"
  by (simp add: showNat_snoc showNat_digit digitChar_def)

lemma rgbaString_half: "rgbaString 0x80030201 = ''rgba(1,2,3,0.5020)''"
proof -
  have c: "lowByte (0x80030201 :: color) = 1" "channel 8 (0x80030201 :: color) = 2"
    "channel 16 (0x80030201 :: color) = 3" "channel 24 (0x80030201 :: color) = 128"
    by code_simp+
  have t: "toFixed4 128 = ''0.5020''"
    by (simp add: toFixed4_def Let_def showNat_small digitChar_def)
  show ?thesis
    by (simp add: rgbaString_def Let_def c t showNat_small)
qed

lemma rgbaString_red: "rgbaString 0xFF0000FF = ''rgba(255,0,0,1.0000)''"
proof -
  have c: "lowByte (0xFF0000FF :: color) = 255" "channel 8 (0xFF0000FF :: color) = 0"
    "channel 16 (0xFF0000FF :: color) = 0" "channel 24 (0xFF0000FF :: color) = 255"
    by code_simp+
  have t: "toFixed4 255 = ''1.0000''"
    by (simp add: toFixed4_def Let_def showNat_small digitChar_def)
  show ?thesis
    by (simp add: rgbaString_def Let_def c t showNat_small showNat_255)
qed

text \<open>
  Claim C6. The document is the root element, opened and closed, around one shape element
  per distinct anchor color key, in the order in which the keys first occur among the
  committed rectangles. The shape of a key (\<open>specShape\<close>) has as path data the
  concatenated bled commands of the rectangles committed under that key, in commit order,
  fill and stroke equal to the RGBA value of the key with alpha as a fraction of 255,
  stroke width 0.5 and round joins. The root carries the view box
  \<^verbatim>\<open>0 0 targetW targetH\<close> and the width and height attributes.
\<close>

theorem document_shapes:
  "svgDocument (targetWidth buf) (targetHeight buf) (colorPaths (growPhase buf tol)) =
     svgOpen (targetWidth buf) (targetHeight buf) @
     concat (specShapes (regionRects (growPhase buf tol))) @
     [CHR 0x0A] @ ''  </svg>''
   \<and> specShapes (regionRects (growPhase buf tol)) =
       map (specShape (regionRects (growPhase buf tol)))
         (firstOccurrences (map colorKey (regionRects (growPhase buf tol))))
   \<and> length (specShapes (regionRects (growPhase buf tol))) =
       card (colorKey ` set (regionRects (growPhase buf tol)))
   \<and> map fst (colorPaths (growPhase buf tol)) =
       firstOccurrences (map colorKey (regionRects (growPhase buf tol)))
   \<and> prefix ''<svg '' (svgOpen (targetWidth buf) (targetHeight buf))
   \<and> sublist (''viewBox='' @ [CHR 0x22] @ ''0 0 '' @ showNat (targetWidth buf) @ '' '' @
               showNat (targetHeight buf) @ [CHR 0x22])
        (svgOpen (targetWidth buf) (targetHeight buf))
   \<and> sublist ('' width='' @ [CHR 0x22] @ showNat (targetWidth buf) @ [CHR 0x22])
        (svgOpen (targetWidth buf) (targetHeight buf))
   \<and> sublist ('' height='' @ [CHR 0x22] @ showNat (targetHeight buf) @ [CHR 0x22])
        (svgOpen (targetWidth buf) (targetHeight buf))"
proof -
  let ?rs = "regionRects (growPhase buf tol)"
  have g: "colorPaths (growPhase buf tol) = groupByColor ?rs" by (rule growPhase_groups)
  show ?thesis
  proof (intro conjI)
    show "svgDocument (targetWidth buf) (targetHeight buf) (colorPaths (growPhase buf tol)) =
       svgOpen (targetWidth buf) (targetHeight buf) @ concat (specShapes ?rs) @
       [CHR 0x0A] @ ''  </svg>''"
      unfolding g svgDocument_def pathElement_group svgClose_def nl_def ..
    show "specShapes ?rs = map (specShape ?rs) (firstOccurrences (map colorKey ?rs))"
      by (rule specShapes_def)
    show "length (specShapes ?rs) = card (colorKey ` set ?rs)"
      by (simp add: specShapes_def length_firstOccurrences)
    show "map fst (colorPaths (growPhase buf tol)) = firstOccurrences (map colorKey ?rs)"
      unfolding g by (rule keys_groupByColor)
    show "prefix ''<svg '' (svgOpen (targetWidth buf) (targetHeight buf))"
      by (simp add: svgOpen_def)
    show "sublist (''viewBox='' @ [CHR 0x22] @ ''0 0 '' @ showNat (targetWidth buf) @ '' '' @
               showNat (targetHeight buf) @ [CHR 0x22])
        (svgOpen (targetWidth buf) (targetHeight buf))"
      by (rule svgOpen_viewBox [unfolded dq_def])
    show "sublist ('' width='' @ [CHR 0x22] @ showNat (targetWidth buf) @ [CHR 0x22])
        (svgOpen (targetWidth buf) (targetHeight buf))"
      by (rule svgOpen_width [unfolded dq_def])
    show "sublist ('' height='' @ [CHR 0x22] @ showNat (targetHeight buf) @ [CHR 0x22])
        (svgOpen (targetWidth buf) (targetHeight buf))"
      by (rule svgOpen_height [unfolded dq_def])
  qed
qed

text \<open>
  The document of \<open>duoBuffer\<close> at tolerance 0, in full: two shapes, each with the two
  rectangles of its color; the alpha of the first is 128/255, printed as 0.5020.
\<close>

theorem document_shapes_witness:
  "concat (specShapes (regionRects (growPhase duoBuffer 0))) =
     ''<path d='' @ [CHR 0x22] @ ''M-0.2,-0.2h1.4v1.4h-1.4zM0.8,0.8h1.4v1.4h-1.4z'' @ [CHR 0x22] @
     '' fill='' @ [CHR 0x22] @ ''rgba(1,2,3,0.5020)'' @ [CHR 0x22] @
     '' stroke='' @ [CHR 0x22] @ ''rgba(1,2,3,0.5020)'' @ [CHR 0x22] @
     '' stroke-width='' @ [CHR 0x22] @ ''0.5'' @ [CHR 0x22] @
     '' stroke-linejoin='' @ [CHR 0x22] @ ''round'' @ [CHR 0x22] @ '' />'' @
     ''<path d='' @ [CHR 0x22] @ ''M0.8,-0.2h1.4v1.4h-1.4zM-0.2,0.8h1.4v1.4h-1.4z'' @ [CHR 0x22] @
     '' fill='' @ [CHR 0x22] @ ''rgba(255,0,0,1.0000)'' @ [CHR 0x22] @
     '' stroke='' @ [CHR 0x22] @ ''rgba(255,0,0,1.0000)'' @ [CHR 0x22] @
     '' stroke-width='' @ [CHR 0x22] @ ''0.5'' @ [CHR 0x22] @
     '' stroke-linejoin='' @ [CHR 0x22] @ ''round'' @ [CHR 0x22] @ '' />''
   \<and> svgDocument 2 2 (colorPaths (growPhase duoBuffer 0)) =
     ''<svg '' @ [CHR 0x0A] @
     ''    xmlns='' @ [CHR 0x22] @ ''http://www.w3.org/2000/svg'' @ [CHR 0x22] @ '' '' @ [CHR 0x0A] @
     ''    viewBox='' @ [CHR 0x22] @ ''0 0 2 2'' @ [CHR 0x22] @ '' '' @ [CHR 0x0A] @
     ''    width='' @ [CHR 0x22] @ ''2'' @ [CHR 0x22] @ '' '' @ [CHR 0x0A] @
     ''    height='' @ [CHR 0x22] @ ''2'' @ [CHR 0x22] @ [CHR 0x0A] @
     ''    shape-rendering='' @ [CHR 0x22] @ ''crispEdges'' @ [CHR 0x22] @ [CHR 0x0A] @
     ''    style='' @ [CHR 0x22] @
     ''background:transparent; display:block; image-rendering: -webkit-optimize-contrast; pointer-events: none;''
     @ [CHR 0x22] @ [CHR 0x0A] @
     ''  >'' @ [CHR 0x0A] @ ''    '' @
     ''<path d='' @ [CHR 0x22] @ ''M-0.2,-0.2h1.4v1.4h-1.4zM0.8,0.8h1.4v1.4h-1.4z'' @ [CHR 0x22] @
     '' fill='' @ [CHR 0x22] @ ''rgba(1,2,3,0.5020)'' @ [CHR 0x22] @
     '' stroke='' @ [CHR 0x22] @ ''rgba(1,2,3,0.5020)'' @ [CHR 0x22] @
     '' stroke-width='' @ [CHR 0x22] @ ''0.5'' @ [CHR 0x22] @
     '' stroke-linejoin='' @ [CHR 0x22] @ ''round'' @ [CHR 0x22] @ '' />'' @
     ''<path d='' @ [CHR 0x22] @ ''M0.8,-0.2h1.4v1.4h-1.4zM-0.2,0.8h1.4v1.4h-1.4z'' @ [CHR 0x22] @
     '' fill='' @ [CHR 0x22] @ ''rgba(255,0,0,1.0000)'' @ [CHR 0x22] @
     '' stroke='' @ [CHR 0x22] @ ''rgba(255,0,0,1.0000)'' @ [CHR 0x22] @
     '' stroke-width='' @ [CHR 0x22] @ ''0.5'' @ [CHR 0x22] @
     '' stroke-linejoin='' @ [CHR 0x22] @ ''round'' @ [CHR 0x22] @ '' />'' @
     [CHR 0x0A] @ ''  </svg>''"
proof -
  have paths: "colorPaths (growPhase duoBuffer 0) =
    [(0x80030201, [''M-0.2,-0.2h1.4v1.4h-1.4z'', ''M0.8,0.8h1.4v1.4h-1.4z'']),
     (0xFF0000FF, [''M0.8,-0.2h1.4v1.4h-1.4z'', ''M-0.2,0.8h1.4v1.4h-1.4z''])]"
    by code_simp
  have dims: "targetWidth duoBuffer = 2" "targetHeight duoBuffer = 2"
    by (simp_all add: duoBuffer_def)
  have doc: "svgDocument 2 2 (colorPaths (growPhase duoBuffer 0)) =
     svgOpen 2 2 @
     (''<path d='' @ [CHR 0x22] @ ''M-0.2,-0.2h1.4v1.4h-1.4zM0.8,0.8h1.4v1.4h-1.4z'' @ [CHR 0x22] @
     '' fill='' @ [CHR 0x22] @ ''rgba(1,2,3,0.5020)'' @ [CHR 0x22] @
     '' stroke='' @ [CHR 0x22] @ ''rgba(1,2,3,0.5020)'' @ [CHR 0x22] @
     '' stroke-width='' @ [CHR 0x22] @ ''0.5'' @ [CHR 0x22] @
     '' stroke-linejoin='' @ [CHR 0x22] @ ''round'' @ [CHR 0x22] @ '' />'' @
     ''<path d='' @ [CHR 0x22] @ ''M0.8,-0.2h1.4v1.4h-1.4zM-0.2,0.8h1.4v1.4h-1.4z'' @ [CHR 0x22] @
     '' fill='' @ [CHR 0x22] @ ''rgba(255,0,0,1.0000)'' @ [CHR 0x22] @
     '' stroke='' @ [CHR 0x22] @ ''rgba(255,0,0,1.0000)'' @ [CHR 0x22] @
     '' stroke-width='' @ [CHR 0x22] @ ''0.5'' @ [CHR 0x22] @
     '' stroke-linejoin='' @ [CHR 0x22] @ ''round'' @ [CHR 0x22] @ '' />'') @
     [CHR 0x0A] @ ''  </svg>''"
    unfolding paths svgDocument_def
    by (simp add: pathElement_def Let_def rgbaString_half rgbaString_red dq_def svgClose_def nl_def)
  have "svgDocument 2 2 (colorPaths (growPhase duoBuffer 0)) =
     svgOpen 2 2 @ concat (specShapes (regionRects (growPhase duoBuffer 0))) @
     [CHR 0x0A] @ ''  </svg>''"
    using document_shapes [of duoBuffer 0] unfolding dims by blast
  then have shapes: "concat (specShapes (regionRects (growPhase duoBuffer 0))) =
     ''<path d='' @ [CHR 0x22] @ ''M-0.2,-0.2h1.4v1.4h-1.4zM0.8,0.8h1.4v1.4h-1.4z'' @ [CHR 0x22] @
     '' fill='' @ [CHR 0x22] @ ''rgba(1,2,3,0.5020)'' @ [CHR 0x22] @
     '' stroke='' @ [CHR 0x22] @ ''rgba(1,2,3,0.5020)'' @ [CHR 0x22] @
     '' stroke-width='' @ [CHR 0x22] @ ''0.5'' @ [CHR 0x22] @
     '' stroke-linejoin='' @ [CHR 0x22] @ ''round'' @ [CHR 0x22] @ '' />'' @
     ''<path d='' @ [CHR 0x22] @ ''M0.8,-0.2h1.4v1.4h-1.4zM-0.2,0.8h1.4v1.4h-1.4z'' @ [CHR 0x22] @
     '' fill='' @ [CHR 0x22] @ ''rgba(255,0,0,1.0000)'' @ [CHR 0x22] @
     '' stroke='' @ [CHR 0x22] @ ''rgba(255,0,0,1.0000)'' @ [CHR 0x22] @
     '' stroke-width='' @ [CHR 0x22] @ ''0.5'' @ [CHR 0x22] @
     '' stroke-linejoin='' @ [CHR 0x22] @ ''round'' @ [CHR 0x22] @ '' />''"
    unfolding doc by (simp only: same_append_eq append_same_eq)
  have "svgOpen 2 2 =
     ''<svg '' @ [CHR 0x0A] @
     ''    xmlns='' @ [CHR 0x22] @ ''http://www.w3.org/2000/svg'' @ [CHR 0x22] @ '' '' @ [CHR 0x0A] @
     ''    viewBox='' @ [CHR 0x22] @ ''0 0 2 2'' @ [CHR 0x22] @ '' '' @ [CHR 0x0A] @
     ''    width='' @ [CHR 0x22] @ ''2'' @ [CHR 0x22] @ '' '' @ [CHR 0x0A] @
     ''    height='' @ [CHR 0x22] @ ''2'' @ [CHR 0x22] @ [CHR 0x0A] @
     ''    shape-rendering='' @ [CHR 0x22] @ ''crispEdges'' @ [CHR 0x22] @ [CHR 0x0A] @
     ''    style='' @ [CHR 0x22] @
     ''background:transparent; display:block; image-rendering: -webkit-optimize-contrast; pointer-events: none;''
     @ [CHR 0x22] @ [CHR 0x0A] @
     ''  >'' @ [CHR 0x0A] @ ''    ''"
    by (simp add: svgOpen_def dq_def nl_def showNat_small)
  then have full: "svgDocument 2 2 (colorPaths (growPhase duoBuffer 0)) =
     ''<svg '' @ [CHR 0x0A] @
     ''    xmlns='' @ [CHR 0x22] @ ''http://www.w3.org/2000/svg'' @ [CHR 0x22] @ '' '' @ [CHR 0x0A] @
     ''    viewBox='' @ [CHR 0x22] @ ''0 0 2 2'' @ [CHR 0x22] @ '' '' @ [CHR 0x0A] @
     ''    width='' @ [CHR 0x22] @ ''2'' @ [CHR 0x22] @ '' '' @ [CHR 0x0A] @
     ''    height='' @ [CHR 0x22] @ ''2'' @ [CHR 0x22] @ [CHR 0x0A] @
     ''    shape-rendering='' @ [CHR 0x22] @ ''crispEdges'' @ [CHR 0x22] @ [CHR 0x0A] @
     ''    style='' @ [CHR 0x22] @
     ''background:transparent; display:block; image-rendering: -webkit-optimize-contrast; pointer-events: none;''
     @ [CHR 0x22] @ [CHR 0x0A] @
     ''  >'' @ [CHR 0x0A] @ ''    '' @
     ''<path d='' @ [CHR 0x22] @ ''M-0.2,-0.2h1.4v1.4h-1.4zM0.8,0.8h1.4v1.4h-1.4z'' @ [CHR 0x22] @
     '' fill='' @ [CHR 0x22] @ ''rgba(1,2,3,0.5020)'' @ [CHR 0x22] @
     '' stroke='' @ [CHR 0x22] @ ''rgba(1,2,3,0.5020)'' @ [CHR 0x22] @
     '' stroke-width='' @ [CHR 0x22] @ ''0.5'' @ [CHR 0x22] @
     '' stroke-linejoin='' @ [CHR 0x22] @ ''round'' @ [CHR 0x22] @ '' />'' @
     ''<path d='' @ [CHR 0x22] @ ''M0.8,-0.2h1.4v1.4h-1.4zM-0.2,0.8h1.4v1.4h-1.4z'' @ [CHR 0x22] @
     '' fill='' @ [CHR 0x22] @ ''rgba(255,0,0,1.0000)'' @ [CHR 0x22] @
     '' stroke='' @ [CHR 0x22] @ ''rgba(255,0,0,1.0000)'' @ [CHR 0x22] @
     '' stroke-width='' @ [CHR 0x22] @ ''0.5'' @ [CHR 0x22] @
     '' stroke-linejoin='' @ [CHR 0x22] @ ''round'' @ [CHR 0x22] @ '' />'' @
     [CHR 0x0A] @ ''  </svg>''"
    unfolding doc by (simp only: append_assoc)
  from shapes full show ?thesis by (rule conjI)
qed

subsection \<open>Failures of the entry point\<close>

text \<open>
  Claim C7. If the image does not load, the call fails with \<open>LoadError\<close>; if it loads
  and no 2D context can be acquired, the call fails with \<open>RuntimeError\<close>. In both cases
  the result is the error and not a document, and the progress callback has not been
  called: no grow work has begun.
\<close>

theorem failure_semantics:
  "(imageLoad env = None \<longrightarrow> traceImageToSVG env options = (Inl LoadError, []))
   \<and> (imageLoad env = Some (imgWidth, imgHeight) \<and> \<not> context2d env \<longrightarrow>
        traceImageToSVG env options = (Inl RuntimeError, []))"
  by (simp add: traceImageToSVG_def Let_def)

theorem failure_semantics_witness:
  "imageLoad \<lparr>imageLoad = None, context2d = True, rasterize = (\<lambda>w h. replicate (w * h) 0)\<rparr> = None
   \<and> traceImageToSVG
        \<lparr>imageLoad = None, context2d = True, rasterize = (\<lambda>w h. replicate (w * h) 0)\<rparr>
        \<lparr>tolerance = 1, maxWidth = 4096, maxHeight = 4096, superSample = 2\<rparr>
       = (Inl LoadError, [])
   \<and> imageLoad \<lparr>imageLoad = Some (2, 2), context2d = False, rasterize = (\<lambda>w h. replicate (w * h) 0)\<rparr>
       = Some (2, 2)
   \<and> \<not> context2d \<lparr>imageLoad = Some (2, 2), context2d = False, rasterize = (\<lambda>w h. replicate (w * h) 0)\<rparr>
   \<and> traceImageToSVG
        \<lparr>imageLoad = Some (2, 2), context2d = False, rasterize = (\<lambda>w h. replicate (w * h) 0)\<rparr>
        \<lparr>tolerance = 1, maxWidth = 4096, maxHeight = 4096, superSample = 2\<rparr>
       = (Inl RuntimeError, [])"
  using failure_semantics
      [of "\<lparr>imageLoad = None, context2d = True, rasterize = (\<lambda>w h. replicate (w * h) 0)\<rparr>"
          "\<lparr>tolerance = 1, maxWidth = 4096, maxHeight = 4096, superSample = 2\<rparr>" 2 2]
    failure_semantics
      [of "\<lparr>imageLoad = Some (2, 2), context2d = False, rasterize = (\<lambda>w h. replicate (w * h) 0)\<rparr>"
          "\<lparr>tolerance = 1, maxWidth = 4096, maxHeight = 4096, superSample = 2\<rparr>" 2 2]
  by simp

subsection \<open>Rounding to double precision\<close>

lemma pow2_powi: "pow2 e = 2 powi e"
  by (simp add: pow2_def power_int_def inverse_eq_divide power_one_over)

lemma pow2_pos: "0 < pow2 e"
  by (simp add: pow2_powi)

lemma pow2_add: "pow2 (a + b) = pow2 a * pow2 b"
  by (simp add: pow2_powi power_int_add)

lemma pow2_mono: "a \<le> b \<Longrightarrow> pow2 a \<le> pow2 b"
  by (simp add: pow2_powi power_int_increasing)

lemma pow2_strict_mono: "a < b \<Longrightarrow> pow2 a < pow2 b"
  by (simp add: pow2_powi power_int_strict_increasing)

lemma pow2_nat: "0 \<le> e \<Longrightarrow> pow2 e = 2 ^ nat e"
  by (simp add: pow2_def)

lemma binade_unique:
  assumes "pow2 a \<le> q" "q < pow2 (a + 1)" "pow2 b \<le> q" "q < pow2 (b + 1)"
  shows "a = b"
proof (rule ccontr)
  assume "a \<noteq> b"
  then consider "a + 1 \<le> b" | "b + 1 \<le> a" by linarith
  then show False
  proof cases
    case 1
    then have "pow2 (a + 1) \<le> pow2 b" by (rule pow2_mono)
    then show False using assms by simp
  next
    case 2
    then have "pow2 (b + 1) \<le> pow2 a" by (rule pow2_mono)
    then show False using assms by simp
  qed
qed

lemma binadeOf_bounds:
  assumes q: "0 < q"
  shows "pow2 (binadeOf q) \<le> q \<and> q < pow2 (binadeOf q + 1)"
proof -
  obtain a b where ab: "quotient_of q = (a, b)" by (cases "quotient_of q")
  have b0: "0 < b" using quotient_of_denom_pos [OF ab] .
  have qv: "q = of_int a / of_int b" using quotient_of_div [OF ab] .
  have a0: "0 < a" using q b0 unfolding qv by (simp add: zero_less_divide_iff)
  define la where "la = bitlen a"
  define lb where "lb = bitlen b"
  have la1: "1 \<le> la" and lb1: "1 \<le> lb"
    using a0 b0 by (auto simp: la_def lb_def bitlen_alt_def)
  have ba: "2 ^ nat (la - 1) \<le> a" "a < 2 ^ nat la"
    using bitlen_bounds [OF a0] by (simp_all add: la_def)
  have bb: "2 ^ nat (lb - 1) \<le> b" "b < 2 ^ nat lb"
    using bitlen_bounds [OF b0] by (simp_all add: lb_def)
  have ra: "pow2 (la - 1) \<le> of_int a" "of_int a < pow2 la"
  proof -
    have "(2::rat) ^ nat (la - 1) = of_int (2 ^ nat (la - 1))" by simp
    also have "\<dots> \<le> of_int a" using ba(1) by (simp only: of_int_le_iff)
    finally show "pow2 (la - 1) \<le> of_int a" using la1 by (simp add: pow2_nat)
    have "(of_int a :: rat) < of_int (2 ^ nat la)" using ba(2) by (simp only: of_int_less_iff)
    then show "of_int a < pow2 la" using la1 by (simp add: pow2_nat)
  qed
  have rb: "pow2 (lb - 1) \<le> of_int b" "of_int b < pow2 lb"
  proof -
    have "(2::rat) ^ nat (lb - 1) = of_int (2 ^ nat (lb - 1))" by simp
    also have "\<dots> \<le> of_int b" using bb(1) by (simp only: of_int_le_iff)
    finally show "pow2 (lb - 1) \<le> of_int b" using lb1 by (simp add: pow2_nat)
    have "(of_int b :: rat) < of_int (2 ^ nat lb)" using bb(2) by (simp only: of_int_less_iff)
    then show "of_int b < pow2 lb" using lb1 by (simp add: pow2_nat)
  qed
  have rb0: "(0::rat) < of_int b" using b0 by simp
  define e where "e = la - lb"
  have up: "q < pow2 (e + 1)"
  proof -
    have "pow2 (e + 1) * of_int b \<ge> pow2 (e + 1) * pow2 (lb - 1)"
      using rb(1) pow2_pos [of "e + 1"] by (simp add: mult_left_mono)
    moreover have "pow2 (e + 1) * pow2 (lb - 1) = pow2 la"
      unfolding pow2_add [symmetric] by (simp add: e_def)
    ultimately have "of_int a < pow2 (e + 1) * of_int b" using ra(2) by simp
    then show ?thesis unfolding qv using rb0 by (simp add: pos_divide_less_eq)
  qed
  have lo: "pow2 (e - 1) \<le> q"
  proof -
    have "pow2 (e - 1) * of_int b \<le> pow2 (e - 1) * pow2 lb"
      using rb(2) pow2_pos [of "e - 1"] by (simp add: mult_left_mono)
    moreover have "pow2 (e - 1) * pow2 lb = pow2 (la - 1)"
      unfolding pow2_add [symmetric] by (simp add: e_def)
    ultimately have "pow2 (e - 1) * of_int b \<le> of_int a" using ra(1) by simp
    then show ?thesis unfolding qv using rb0 by (simp add: pos_le_divide_eq)
  qed
  have be: "binadeOf q = (if q < pow2 e then e - 1 else e)"
    by (simp add: binadeOf_def Let_def ab e_def la_def lb_def)
  show ?thesis
  proof (cases "q < pow2 e")
    case True
    then show ?thesis using lo by (simp add: be)
  next
    case False
    then show ?thesis using up by (simp add: be)
  qed
qed

lemma binadeOf_eq:
  assumes "pow2 e \<le> q" "q < pow2 (e + 1)"
  shows "binadeOf q = e"
proof -
  have "0 < q" using assms(1) pow2_pos [of e] by simp
  then have "pow2 (binadeOf q) \<le> q \<and> q < pow2 (binadeOf q + 1)" by (rule binadeOf_bounds)
  then show ?thesis using binade_unique [of "binadeOf q" q e] assms by simp
qed

lemma binadeOf_mono:
  assumes "0 < a" "a \<le> b"
  shows "binadeOf a \<le> binadeOf b"
proof (rule ccontr)
  assume "\<not> binadeOf a \<le> binadeOf b"
  then have "binadeOf b + 1 \<le> binadeOf a" by simp
  then have "pow2 (binadeOf b + 1) \<le> pow2 (binadeOf a)" by (rule pow2_mono)
  moreover have "pow2 (binadeOf a) \<le> a" using binadeOf_bounds [OF assms(1)] by simp
  moreover have "b < pow2 (binadeOf b + 1)" using binadeOf_bounds [of b] assms by simp
  ultimately show False using assms(2) by simp
qed

lemma roundTiesEven_range: "\<lfloor>q\<rfloor> \<le> roundTiesEven q \<and> roundTiesEven q \<le> \<lfloor>q\<rfloor> + 1"
  by (simp add: roundTiesEven_def Let_def)

lemma roundTiesEven_of_int: "roundTiesEven (of_int n) = n"
  by (simp add: roundTiesEven_def Let_def)

lemma roundTiesEven_mono:
  assumes "a \<le> b"
  shows "roundTiesEven a \<le> roundTiesEven b"
proof (cases "\<lfloor>a\<rfloor> = \<lfloor>b\<rfloor>")
  case False
  then have "\<lfloor>a\<rfloor> < \<lfloor>b\<rfloor>" using floor_mono [OF assms] by simp
  then have "\<lfloor>a\<rfloor> + 1 \<le> \<lfloor>b\<rfloor>" by simp
  then show ?thesis
    using roundTiesEven_range [of a] roundTiesEven_range [of b] by linarith
next
  case True
  have "a - of_int \<lfloor>a\<rfloor> \<le> b - of_int \<lfloor>b\<rfloor>" using assms True by simp
  then show ?thesis
    using True unfolding roundTiesEven_def Let_def by (auto split: if_splits)
qed

lemma roundDouble_pos:
  assumes "0 < q"
  shows "roundDouble q =
           of_int (roundTiesEven (q / pow2 (binadeOf q - 52))) * pow2 (binadeOf q - 52)"
  using assms by (simp add: roundDouble_def Let_def)

lemma roundDouble_zero: "roundDouble 0 = 0"
  by (simp add: roundDouble_def)

text \<open>A positive number and its rounding lie in the same closed binade.\<close>

lemma roundDouble_binade:
  assumes q: "0 < q"
  shows "pow2 (binadeOf q) \<le> roundDouble q \<and> roundDouble q \<le> pow2 (binadeOf q + 1)"
proof -
  define e where "e = binadeOf q"
  define u where "u = pow2 (e - 52)"
  have u0: "0 < u" by (simp add: u_def pow2_pos)
  have b: "pow2 e \<le> q" "q < pow2 (e + 1)"
    using binadeOf_bounds [OF q] by (simp_all add: e_def)
  have lo_eq: "pow2 e = 2 ^ 52 * u"
  proof -
    have "e = 52 + (e - 52)" by simp
    then have "pow2 e = pow2 (52 + (e - 52))" by (simp only:)
    also have "\<dots> = pow2 52 * pow2 (e - 52)" by (rule pow2_add)
    finally show ?thesis by (simp add: u_def pow2_nat)
  qed
  have hi_eq: "pow2 (e + 1) = 2 ^ 53 * u"
  proof -
    have "e + 1 = 53 + (e - 52)" by simp
    then have "pow2 (e + 1) = pow2 (53 + (e - 52))" by (simp only:)
    also have "\<dots> = pow2 53 * pow2 (e - 52)" by (rule pow2_add)
    finally show ?thesis by (simp add: u_def pow2_nat)
  qed
  have "2 ^ 52 \<le> q / u" using b(1) u0 unfolding lo_eq by (simp add: pos_le_divide_eq)
  then have "roundTiesEven (of_int (2 ^ 52)) \<le> roundTiesEven (q / u)"
    by (intro roundTiesEven_mono) simp
  then have m_lo: "2 ^ 52 \<le> roundTiesEven (q / u)" by (simp only: roundTiesEven_of_int)
  have "q / u \<le> 2 ^ 53" using b(2) u0 unfolding hi_eq by (simp add: pos_divide_le_eq)
  then have "roundTiesEven (q / u) \<le> roundTiesEven (of_int (2 ^ 53))"
    by (intro roundTiesEven_mono) simp
  then have m_hi: "roundTiesEven (q / u) \<le> 2 ^ 53" by (simp only: roundTiesEven_of_int)
  have r: "roundDouble q = of_int (roundTiesEven (q / u)) * u"
    using roundDouble_pos [OF q] by (simp add: e_def u_def)
  have "(2::rat) ^ 52 \<le> of_int (roundTiesEven (q / u))"
    using m_lo by (metis of_int_le_iff of_int_numeral of_int_power)
  then have "2 ^ 52 * u \<le> of_int (roundTiesEven (q / u)) * u"
    using u0 by (simp add: mult_right_mono)
  moreover have "(of_int (roundTiesEven (q / u)) :: rat) \<le> 2 ^ 53"
    using m_hi by (metis of_int_le_iff of_int_numeral of_int_power)
  then have "of_int (roundTiesEven (q / u)) * u \<le> 2 ^ 53 * u"
    using u0 by (simp add: mult_right_mono)
  ultimately show ?thesis
    unfolding r e_def [symmetric] lo_eq hi_eq by simp
qed

lemma roundDouble_nonneg: "0 \<le> q \<Longrightarrow> 0 \<le> roundDouble q"
proof (cases "q = 0")
  case True
  then show ?thesis by (simp add: roundDouble_zero)
next
  case False
  assume "0 \<le> q"
  then have q: "0 < q" using False by simp
  have "0 < pow2 (binadeOf q)" by (rule pow2_pos)
  then show ?thesis using roundDouble_binade [OF q] by simp
qed

lemma roundDouble_mono:
  assumes "0 \<le> a" "a \<le> b"
  shows "roundDouble a \<le> roundDouble b"
proof (cases "a = 0")
  case True
  then show ?thesis using assms roundDouble_nonneg [of b] by (simp add: roundDouble_zero)
next
  case False
  then have a: "0 < a" using assms(1) by simp
  then have b: "0 < b" using assms(2) by simp
  have e: "binadeOf a \<le> binadeOf b" by (rule binadeOf_mono [OF a assms(2)])
  show ?thesis
  proof (cases "binadeOf a = binadeOf b")
    case True
    let ?u = "pow2 (binadeOf b - 52)"
    have u0: "0 < ?u" by (rule pow2_pos)
    have "a / ?u \<le> b / ?u" using assms(2) u0 by (simp add: divide_right_mono)
    then have "roundTiesEven (a / ?u) \<le> roundTiesEven (b / ?u)" by (rule roundTiesEven_mono)
    then have "(of_int (roundTiesEven (a / ?u)) :: rat) \<le> of_int (roundTiesEven (b / ?u))"
      by (simp only: of_int_le_iff)
    then have "of_int (roundTiesEven (a / ?u)) * ?u \<le> of_int (roundTiesEven (b / ?u)) * ?u"
      using u0 by (simp add: mult_right_mono)
    then show ?thesis
      unfolding roundDouble_pos [OF a] roundDouble_pos [OF b] True .
  next
    case False
    then have "binadeOf a + 1 \<le> binadeOf b" using e by simp
    then have "pow2 (binadeOf a + 1) \<le> pow2 (binadeOf b)" by (rule pow2_mono)
    then show ?thesis
      using roundDouble_binade [OF a] roundDouble_binade [OF b] by linarith
  qed
qed

lemma roundDouble_of_nat:
  assumes n: "n < 2 ^ 53"
  shows "roundDouble (of_nat n) = of_nat n"
proof (cases "n = 0")
  case True
  then show ?thesis by (simp add: roundDouble_zero)
next
  case False
  define q :: rat where "q = of_nat n"
  have q0: "0 < q" using False by (simp add: q_def)
  define e where "e = binadeOf q"
  have b: "pow2 e \<le> q" "q < pow2 (e + 1)"
    using binadeOf_bounds [OF q0] by (simp_all add: e_def)
  have q1: "1 \<le> q" using False by (simp add: q_def)
  have qlt: "q < pow2 53"
  proof -
    have "(of_nat n :: rat) < of_nat (2 ^ 53)" using n by (simp only: of_nat_less_iff)
    then show ?thesis by (simp add: q_def pow2_nat)
  qed
  have e0: "0 \<le> e"
  proof (rule ccontr)
    assume "\<not> 0 \<le> e"
    then have "e + 1 \<le> 0" by simp
    then have "pow2 (e + 1) \<le> pow2 0" by (rule pow2_mono)
    then show False using b(2) q1 by (simp add: pow2_def)
  qed
  have e52: "e \<le> 52"
  proof (rule ccontr)
    assume "\<not> e \<le> 52"
    then have "53 \<le> e" by simp
    then have "pow2 53 \<le> pow2 e" by (rule pow2_mono)
    then show False using b(1) qlt by simp
  qed
  define k where "k = nat (52 - e)"
  have u: "pow2 (e - 52) = 1 / 2 ^ k"
  proof (cases "e = 52")
    case True
    then show ?thesis by (simp add: pow2_def k_def)
  next
    case False
    then have "e - 52 < 0" using e52 by simp
    then show ?thesis by (simp add: pow2_def k_def)
  qed
  have "q / pow2 (e - 52) = of_int (int n * 2 ^ k)"
    by (simp add: u q_def)
  then have "roundTiesEven (q / pow2 (e - 52)) = int n * 2 ^ k"
    by (simp only: roundTiesEven_of_int)
  then have "roundDouble q = of_int (int n * 2 ^ k) * (1 / 2 ^ k)"
    using roundDouble_pos [OF q0] by (simp add: e_def [symmetric] u)
  then show ?thesis by (simp add: q_def)
qed

lemma roundDouble_1: "roundDouble 1 = 1"
  using roundDouble_of_nat [of 1] by simp

lemma roundDouble_100: "roundDouble 100 = 100"
  using roundDouble_of_nat [of 100] by simp

subsection \<open>The reported percentage\<close>

lemma progressPercent_pos:
  "0 < t \<Longrightarrow> progressPercent p t = Some \<lfloor>roundDouble (roundDouble (of_nat p / of_nat t) * 100)\<rfloor>"
  by (simp add: progressPercent_def jsDivide_def)

lemma progressPercent_full: "0 < t \<Longrightarrow> progressPercent t t = Some 100"
  by (simp add: progressPercent_pos roundDouble_1 roundDouble_100)

lemma progressPercent_mono:
  assumes t: "0 < t" and le: "p \<le> p'"
  shows "the (progressPercent p t) \<le> the (progressPercent p' t)"
proof -
  have "(of_nat p :: rat) / of_nat t \<le> of_nat p' / of_nat t"
    using le t by (simp add: divide_right_mono)
  moreover have "(0::rat) \<le> of_nat p / of_nat t" by simp
  ultimately have "roundDouble (of_nat p / of_nat t) \<le> roundDouble (of_nat p' / of_nat t)"
    by (intro roundDouble_mono)
  then have "roundDouble (of_nat p / of_nat t) * 100 \<le> roundDouble (of_nat p' / of_nat t) * 100"
    by simp
  moreover have "0 \<le> roundDouble (of_nat p / of_nat t) * 100"
    using roundDouble_nonneg [of "of_nat p / of_nat t"] by simp
  ultimately have "roundDouble (roundDouble (of_nat p / of_nat t) * 100)
        \<le> roundDouble (roundDouble (of_nat p' / of_nat t) * 100)"
    by (intro roundDouble_mono)
  then show ?thesis
    using t by (simp add: progressPercent_pos floor_mono)
qed

subsection \<open>The scan and the progress log\<close>

lemma for_loop_commute:
  assumes "\<And>j t. body j (g t) = g (body j t)"
  shows "for_loop i n body (g s) = g (for_loop i n body s)"
  using assms
proof (induction i n body s rule: for_loop.induct)
  case (1 i n body s)
  show ?case
  proof (cases "i < n")
    case True
    then show ?thesis
      using 1(1) [OF True 1(2)] 1(2) by (simp add: for_loop_step)
  next
    case False
    then show ?thesis by (simp add: for_loop_done)
  qed
qed

lemma for_loop_append:
  "i \<le> m \<Longrightarrow> m \<le> n \<Longrightarrow> for_loop m n body (for_loop i m body s) = for_loop i n body s"
proof (induction i m body s rule: for_loop.induct)
  case (1 i m body s)
  show ?case
  proof (cases "i < m")
    case True
    then have "i < n" using 1(3) by simp
    then show ?thesis
      using 1(1) [OF True] True 1(3) by (simp add: for_loop_step)
  next
    case False
    then show ?thesis using 1(2) by (simp add: for_loop_done)
  qed
qed

lemma pixelStep_log:
  "pixelStep buf tol y x (st\<lparr>progressLog := l\<rparr>) = (pixelStep buf tol y x st)\<lparr>progressLog := l\<rparr>"
  by (simp add: pixelStep_def Let_def)

lemma scanRow_log:
  "scanRow buf tol y (st\<lparr>progressLog := l\<rparr>) = (scanRow buf tol y st)\<lparr>progressLog := l\<rparr>"
  unfolding scanRow_def
  by (rule for_loop_commute [where g = "\<lambda>t. t\<lparr>progressLog := l\<rparr>"]) (rule pixelStep_log)

lemma scanRows_log:
  "for_loop a b (scanRow buf tol) (st\<lparr>progressLog := l\<rparr>) =
   (for_loop a b (scanRow buf tol) st)\<lparr>progressLog := l\<rparr>"
  by (rule for_loop_commute [where g = "\<lambda>t. t\<lparr>progressLog := l\<rparr>"]) (rule scanRow_log)

lemma pixelStep_keeps_log: "progressLog (pixelStep buf tol y x st) = progressLog st"
  by (simp add: pixelStep_def Let_def)

lemma scanRows_keeps_log: "progressLog (for_loop a b (scanRow buf tol) st) = progressLog st"
proof (rule for_loop_preserves [where P = "\<lambda>t. progressLog t = progressLog st"])
  show "progressLog st = progressLog st" ..
next
  fix j and t :: trace_state assume t: "progressLog t = progressLog st"
  show "progressLog (scanRow buf tol j t) = progressLog st"
    unfolding scanRow_def
  proof (rule for_loop_preserves [where P = "\<lambda>t. progressLog t = progressLog st"])
    show "progressLog t = progressLog st" by (rule t)
  next
    fix i and u :: trace_state assume "progressLog u = progressLog st"
    then show "progressLog (pixelStep buf tol j i u) = progressLog st"
      by (simp add: pixelStep_keeps_log)
  qed
qed

lemma rowsDone_extend:
  "a \<le> b \<Longrightarrow> for_loop a b (scanRow buf tol) (rowsDone buf tol a) = rowsDone buf tol b"
  unfolding rowsDone_def by (rule for_loop_append) simp_all

lemma batchCount_step:
  assumes "b < h"
  shows "(h - b + (BATCH_ROWS - 1)) div BATCH_ROWS =
         Suc ((h - (b + BATCH_ROWS) + (BATCH_ROWS - 1)) div BATCH_ROWS)"
  using assms unfolding BATCH_ROWS_def by (cases "h - b < 25") simp_all

lemma batchCount_done:
  assumes "\<not> b < h"
  shows "(h - b + (BATCH_ROWS - 1)) div BATCH_ROWS = 0"
  using assms unfolding BATCH_ROWS_def by simp

lemma map_upt_Suc0: "map f [0..<Suc n] = f 0 # map (\<lambda>k. f (Suc k)) [0..<n]"
  by (simp add: upt_conv_Cons map_Suc_upt [symmetric] del: upt_Suc)

text \<open>
  Running the batches from row \<open>b\<close>, in a state that has scanned the rows before \<open>b\<close>:
  one report per remaining batch, each the percentage after that batch's rows.
\<close>

lemma runBatches_log:
  assumes "st\<lparr>progressLog := []\<rparr> = rowsDone buf tol (min b (targetHeight buf))"
  shows "progressLog (runBatches buf tol b st) =
     progressLog st @
     map (\<lambda>k. progressPercent
                 (processed (rowsDone buf tol (min (b + (k + 1) * BATCH_ROWS) (targetHeight buf))))
                 (targetWidth buf * targetHeight buf))
       [0..<(targetHeight buf - b + (BATCH_ROWS - 1)) div BATCH_ROWS]"
  using assms
proof (induction buf tol b st rule: runBatches.induct)
  case (1 buf tol batchY st)
  let ?h = "targetHeight buf" and ?t = "targetWidth buf * targetHeight buf"
  show ?case
  proof (cases "batchY < ?h")
    case True
    define endY where "endY = min (batchY + BATCH_ROWS) ?h"
    define st1 where "st1 = for_loop batchY endY (scanRow buf tol) st"
    define st2 where "st2 = st1\<lparr>progressLog := progressLog st1 @
                     [progressPercent (processed st1) ?t]\<rparr>"
    have eq: "runBatches buf tol batchY st = runBatches buf tol (batchY + BATCH_ROWS) st2"
      using True by (subst runBatches.simps) (simp add: Let_def endY_def st1_def st2_def)
    have be: "batchY \<le> endY" using True by (simp add: endY_def)
    have core: "st\<lparr>progressLog := []\<rparr> = rowsDone buf tol batchY"
      using 1(2) True by (simp add: min_def)
    have "st1\<lparr>progressLog := []\<rparr> = for_loop batchY endY (scanRow buf tol) (st\<lparr>progressLog := []\<rparr>)"
      unfolding st1_def by (simp add: scanRows_log)
    also have "\<dots> = rowsDone buf tol endY"
      unfolding core by (rule rowsDone_extend [OF be])
    finally have core1: "st1\<lparr>progressLog := []\<rparr> = rowsDone buf tol endY" .
    have "processed (st1\<lparr>progressLog := []\<rparr>) = processed st1" by simp
    then have p1: "processed st1 = processed (rowsDone buf tol endY)"
      unfolding core1 by simp
    have l1: "progressLog st1 = progressLog st"
      unfolding st1_def by (rule scanRows_keeps_log)
    have core2: "st2\<lparr>progressLog := []\<rparr> = rowsDone buf tol (min (batchY + BATCH_ROWS) ?h)"
      using core1 by (simp add: st2_def endY_def)
    have l2: "progressLog st2 =
        progressLog st @ [progressPercent (processed (rowsDone buf tol endY)) ?t]"
      by (simp add: st2_def l1 p1)
    have ih: "progressLog (runBatches buf tol (batchY + BATCH_ROWS) st2) =
       progressLog st2 @
       map (\<lambda>k. progressPercent
                 (processed (rowsDone buf tol (min (batchY + BATCH_ROWS + (k + 1) * BATCH_ROWS) ?h)))
                 ?t)
         [0..<(?h - (batchY + BATCH_ROWS) + (BATCH_ROWS - 1)) div BATCH_ROWS]"
      by (rule 1(1) [OF True endY_def st1_def st2_def core2])
    show ?thesis
      unfolding eq ih l2 batchCount_step [OF True] map_upt_Suc0
      by (simp add: endY_def add.assoc add.commute add.left_commute)
  next
    case False
    then have "runBatches buf tol batchY st = st" by (subst runBatches.simps) simp
    then show ?thesis unfolding batchCount_done [OF False] by simp
  qed
qed

subsection \<open>The counter never decreases\<close>

lemma markCell_counter: "snd s \<le> snd (markCell w x y vY vX s)"
  by (simp add: markCell_def Let_def)

lemma markRect_counter: "snd s \<le> snd (markRect w x y rectW rectH s)"
  unfolding markRect_def
proof (rule for_loop_preserves [where P = "\<lambda>t. snd s \<le> snd t"])
  show "snd s \<le> snd s" ..
next
  fix j and t :: "bool list \<times> nat" assume t: "snd s \<le> snd t"
  show "snd s \<le> snd (for_loop 0 rectW (markCell w x y j) t)"
  proof (rule for_loop_preserves [where P = "\<lambda>t. snd s \<le> snd t"])
    show "snd s \<le> snd t" by (rule t)
  next
    fix i and u :: "bool list \<times> nat" assume "snd s \<le> snd u"
    then show "snd s \<le> snd (markCell w x y j i u)"
      using markCell_counter [of u w x y j i] by simp
  qed
qed

lemma pixelStep_counter: "processed st \<le> processed (pixelStep buf tol y x st)"
proof (cases "visited_at (visited st) (y * targetWidth buf + x)")
  case True
  then show ?thesis by (simp add: pixelStep_visited)
next
  case nv: False
  show ?thesis
  proof (cases "channel 24 (data_at (data buf) (y * targetWidth buf + x)) < 2")
    case True
    then show ?thesis by (simp add: pixelStep_skip [OF nv True])
  next
    case False
    show ?thesis
      using markRect_counter [of "(visited st, processed st)"]
      by (simp add: pixelStep_rect [OF nv False])
  qed
qed

lemma scanRows_counter: "processed st \<le> processed (for_loop a b (scanRow buf tol) st)"
proof (rule for_loop_preserves [where P = "\<lambda>t. processed st \<le> processed t"])
  show "processed st \<le> processed st" ..
next
  fix j and t :: trace_state assume t: "processed st \<le> processed t"
  show "processed st \<le> processed (scanRow buf tol j t)"
    unfolding scanRow_def
  proof (rule for_loop_preserves [where P = "\<lambda>t. processed st \<le> processed t"])
    show "processed st \<le> processed t" by (rule t)
  next
    fix i and u :: trace_state assume "processed st \<le> processed u"
    then show "processed st \<le> processed (pixelStep buf tol j i u)"
      using pixelStep_counter [of u buf tol j i] by simp
  qed
qed

lemma rowsDone_counter:
  assumes "a \<le> b"
  shows "processed (rowsDone buf tol a) \<le> processed (rowsDone buf tol b)"
  using scanRows_counter [of "rowsDone buf tol a" a b buf tol]
  by (simp add: rowsDone_extend [OF assms])

lemma rowsDone_all:
  "processed (rowsDone buf tol (targetHeight buf)) = targetWidth buf * targetHeight buf"
proof -
  have "traceInv buf (rowsDone buf tol (targetHeight buf)) \<and>
     (\<forall>py<targetHeight buf. \<forall>px<targetWidth buf.
        (px, py) \<in> set (coveredCells (rowsDone buf tol (targetHeight buf))))"
    unfolding rowsDone_def
    by (rule scanRows_inv [OF traceInv_initial]) simp_all
  then show ?thesis using covered_all [of buf "rowsDone buf tol (targetHeight buf)"] by simp
qed

lemma sorted_map_upt:
  assumes "\<And>i j. i \<le> j \<Longrightarrow> j < n \<Longrightarrow> f i \<le> (f j :: int)"
  shows "sorted (map f [0..<n])"
  using assms by (simp add: sorted_iff_nth_mono)

lemma batchCount_covers: "h \<le> batchCount h * BATCH_ROWS"
  unfolding batchCount_def BATCH_ROWS_def by simp

lemma batchCount_pos: "0 < h \<Longrightarrow> 0 < batchCount h"
  unfolding batchCount_def BATCH_ROWS_def by simp

lemma growPhase_log:
  "progressLog (growPhase buf tol) =
     map (reportAfterBatch buf tol) [0..<batchCount (targetHeight buf)]"
proof -
  have "(initialState buf)\<lparr>progressLog := []\<rparr> = rowsDone buf tol (min 0 (targetHeight buf))"
    by (simp add: rowsDone_def for_loop_done initialState_def)
  then have "progressLog (runBatches buf tol 0 (initialState buf)) =
     progressLog (initialState buf) @
     map (\<lambda>k. progressPercent
                 (processed (rowsDone buf tol (min (0 + (k + 1) * BATCH_ROWS) (targetHeight buf))))
                 (targetWidth buf * targetHeight buf))
       [0..<(targetHeight buf - 0 + (BATCH_ROWS - 1)) div BATCH_ROWS]"
    by (rule runBatches_log)
  then show ?thesis
    by (simp add: growPhase_def initialState_def reportAfterBatch_def batchCount_def)
qed

lemma reportAfterBatch_some:
  assumes "0 < targetWidth buf * targetHeight buf"
  shows "reportAfterBatch buf tol k =
     Some (the (reportAfterBatch buf tol k))"
  using assms by (simp add: reportAfterBatch_def progressPercent_pos)

lemma reportAfterBatch_mono:
  assumes t: "0 < targetWidth buf * targetHeight buf" and le: "i \<le> j"
  shows "the (reportAfterBatch buf tol i) \<le> the (reportAfterBatch buf tol j)"
proof -
  have "min ((i + 1) * BATCH_ROWS) (targetHeight buf) \<le> min ((j + 1) * BATCH_ROWS) (targetHeight buf)"
    using le by (simp add: min_le_iff_disj)
  then have "processed (rowsDone buf tol (min ((i + 1) * BATCH_ROWS) (targetHeight buf)))
      \<le> processed (rowsDone buf tol (min ((j + 1) * BATCH_ROWS) (targetHeight buf)))"
    by (rule rowsDone_counter)
  then show ?thesis
    unfolding reportAfterBatch_def by (rule progressPercent_mono [OF t])
qed

lemma reportAfterBatch_last:
  assumes t: "0 < targetWidth buf * targetHeight buf"
  shows "reportAfterBatch buf tol (batchCount (targetHeight buf) - 1) = Some 100"
proof -
  have h: "0 < targetHeight buf" using t by simp
  have "batchCount (targetHeight buf) - 1 + 1 = batchCount (targetHeight buf)"
    using batchCount_pos [OF h] by simp
  then have "min ((batchCount (targetHeight buf) - 1 + 1) * BATCH_ROWS) (targetHeight buf)
      = targetHeight buf"
    using batchCount_covers [of "targetHeight buf"] by (simp only: min_def) simp
  then show ?thesis
    unfolding reportAfterBatch_def
    by (simp only: rowsDone_all progressPercent_full [OF t])
qed

text \<open>
  Claim C5, as the code has it. For a buffer with at least one pixel, the progress
  callback is called once per batch of \<open>BATCH_ROWS\<close> = 25 rows (the last batch may be
  shorter). The value reported after a batch is \<^verbatim>\<open>Math.floor((processed / total) * 100)\<close>
  as double arithmetic evaluates it, the quotient and the product each rounded to a
  double, for the count of pixels processed once the rows up to the end of that batch
  have been scanned (\<open>reportAfterBatch\<close>); every reported value is a number, the sequence
  of values is non-decreasing, and the last value is 100.
\<close>

theorem progress_reports:
  assumes "0 < targetWidth buf" and "0 < targetHeight buf"
  shows "progressLog (growPhase buf tol) =
           map (reportAfterBatch buf tol) [0..<batchCount (targetHeight buf)]
       \<and> length (progressLog (growPhase buf tol)) = batchCount (targetHeight buf)
       \<and> None \<notin> set (progressLog (growPhase buf tol))
       \<and> sorted (map the (progressLog (growPhase buf tol)))
       \<and> last (progressLog (growPhase buf tol)) = Some 100"
proof -
  let ?n = "batchCount (targetHeight buf)"
  have t: "0 < targetWidth buf * targetHeight buf" using assms by simp
  have n0: "0 < ?n" by (rule batchCount_pos [OF assms(2)])
  have log: "progressLog (growPhase buf tol) = map (reportAfterBatch buf tol) [0..<?n]"
    by (rule growPhase_log)
  have some: "None \<notin> set (map (reportAfterBatch buf tol) [0..<?n])"
  proof
    assume "None \<in> set (map (reportAfterBatch buf tol) [0..<?n])"
    then obtain k where "None = reportAfterBatch buf tol k" by auto
    then show False using reportAfterBatch_some [OF t, of tol k] by simp
  qed
  have srt: "sorted (map the (map (reportAfterBatch buf tol) [0..<?n]))"
    unfolding map_map comp_def
    by (rule sorted_map_upt) (rule reportAfterBatch_mono [OF t])
  have "last (map (reportAfterBatch buf tol) [0..<?n]) = reportAfterBatch buf tol (?n - 1)"
    using n0 by (simp add: last_map last_upt)
  then have lst: "last (map (reportAfterBatch buf tol) [0..<?n]) = Some 100"
    by (simp only: reportAfterBatch_last [OF t])
  show ?thesis
    unfolding log using some srt lst by simp
qed

theorem progress_reports_witness:
  "0 < targetWidth tallBuffer \<and> 0 < targetHeight tallBuffer
   \<and> batchCount (targetHeight tallBuffer) = 2
   \<and> progressLog (growPhase tallBuffer 0) = [Some 96, Some 100]
   \<and> length (progressLog (growPhase tallBuffer 0)) = 2
   \<and> sorted (map the (progressLog (growPhase tallBuffer 0)))
   \<and> last (progressLog (growPhase tallBuffer 0)) = Some 100"
proof -
  have w: "0 < targetWidth tallBuffer" and h: "0 < targetHeight tallBuffer"
    by (simp_all add: tallBuffer_def)
  have n: "batchCount (targetHeight tallBuffer) = 2"
    by (simp add: tallBuffer_def batchCount_def BATCH_ROWS_def)
  have l: "progressLog (growPhase tallBuffer 0) = [Some 96, Some 100]"
    by code_simp
  show ?thesis
    using w h n l progress_reports [OF w h, of 0] by simp
qed

text \<open>
  Claim C5 as stated fails: the reported value is not always the floor of the exact
  percentage. In \<open>stripBuffer\<close> 29 of the 50 pixels are processed when the first batch
  ends. The exact percentage is 58; the double nearest to 29/50 lies below it, its product
  with 100 rounds to a double below 58, and the callback receives 57.
\<close>

theorem progress_reports_counterexample:
  "0 < targetWidth stripBuffer \<and> 0 < targetHeight stripBuffer
   \<and> targetWidth stripBuffer * targetHeight stripBuffer = 50
   \<and> processed (rowsDone stripBuffer 0 BATCH_ROWS) = 29
   \<and> progressLog (growPhase stripBuffer 0) = [Some 57, Some 100]
   \<and> \<lfloor>of_nat (processed (rowsDone stripBuffer 0 BATCH_ROWS)) /
        of_nat (targetWidth stripBuffer * targetHeight stripBuffer) * 100 :: rat\<rfloor> = 58"
proof -
  have d: "targetWidth stripBuffer = 1" "targetHeight stripBuffer = 50"
    by (simp_all add: stripBuffer_def)
  have p: "processed (rowsDone stripBuffer 0 BATCH_ROWS) = 29"
    by code_simp
  have l: "progressLog (growPhase stripBuffer 0) = [Some 57, Some 100]"
    by code_simp
  show ?thesis
    unfolding p l d by simp
qed

subsection \<open>Target dimensions\<close>

lemma scaleOf_finite:
  assumes "0 < imgWidth" "0 < imgHeight"
  shows "scaleOf options imgWidth imgHeight =
     Finite (min (roundDouble (of_nat (maxWidth options) / of_nat imgWidth))
               (min (roundDouble (of_nat (maxHeight options) / of_nat imgHeight)) 1))"
  using assms by (simp add: scaleOf_def jsDivide_def)

lemma scaled_size_le:
  assumes s0: "0 \<le> s" and s1: "s \<le> 1" and rep: "n * k < 2 ^ 53" and k: "0 < k"
  shows "roundDouble (of_nat n * s) \<le> of_nat n"
    and "nat \<lfloor>roundDouble (roundDouble (of_nat n * s) * of_nat k)\<rfloor> \<le> n * k"
proof -
  have "n * 1 \<le> n * k" using k by (intro mult_le_mono2) simp
  then have "n \<le> n * k" by (simp only: mult_1_right)
  then have n: "n < 2 ^ 53" using rep by (rule le_less_trans)
  have "(of_nat n :: rat) * s \<le> of_nat n * 1" using s1 by (intro mult_left_mono) simp_all
  then have "roundDouble (of_nat n * s) \<le> roundDouble (of_nat n)"
    using s0 by (intro roundDouble_mono) simp_all
  then show a: "roundDouble (of_nat n * s) \<le> of_nat n"
    by (simp add: roundDouble_of_nat [OF n])
  have "0 \<le> roundDouble (of_nat n * s)" using s0 by (intro roundDouble_nonneg) simp
  moreover have "roundDouble (of_nat n * s) * of_nat k \<le> of_nat n * of_nat k"
    using a by (intro mult_right_mono) simp_all
  ultimately have "roundDouble (roundDouble (of_nat n * s) * of_nat k)
      \<le> roundDouble (of_nat n * of_nat k)"
    by (intro roundDouble_mono) simp_all
  also have "\<dots> = of_nat (n * k)"
    using roundDouble_of_nat [OF rep] by simp
  finally have "\<lfloor>roundDouble (roundDouble (of_nat n * s) * of_nat k)\<rfloor> \<le> \<lfloor>(of_nat (n * k) :: rat)\<rfloor>"
    by (rule floor_mono)
  then have "\<lfloor>roundDouble (roundDouble (of_nat n * s) * of_nat k)\<rfloor> \<le> int (n * k)"
    by (simp only: floor_of_nat)
  then show "nat \<lfloor>roundDouble (roundDouble (of_nat n * s) * of_nat k)\<rfloor> \<le> n * k"
    by (simp only: nat_le_iff)
qed

lemma unscaled_size:
  assumes rep: "n * k < 2 ^ 53" and k: "0 < k"
  shows "nat \<lfloor>roundDouble (roundDouble (of_nat n * 1) * of_nat k)\<rfloor> = n * k"
proof -
  have "n * 1 \<le> n * k" using k by (intro mult_le_mono2) simp
  then have "n \<le> n * k" by (simp only: mult_1_right)
  then have n: "n < 2 ^ 53" using rep by (rule le_less_trans)
  have "roundDouble (roundDouble (of_nat n * 1) * of_nat k) = roundDouble (of_nat (n * k))"
    by (simp add: roundDouble_of_nat [OF n])
  then have "roundDouble (roundDouble (of_nat n * 1) * of_nat k) = of_nat (n * k)"
    by (simp only: roundDouble_of_nat [OF rep])
  then show ?thesis by (simp only: floor_of_nat nat_int)
qed

lemma ratio_ge_1:
  assumes "0 < n" "n \<le> m"
  shows "1 \<le> roundDouble (of_nat m / of_nat n)"
proof -
  have "(1::rat) \<le> of_nat m / of_nat n" using assms by (simp add: pos_le_divide_eq)
  then have "roundDouble 1 \<le> roundDouble (of_nat m / of_nat n)"
    by (intro roundDouble_mono) simp_all
  then show ?thesis by (simp add: roundDouble_1)
qed

lemma roundDouble_positive:
  assumes "0 < q"
  shows "0 < roundDouble q"
proof -
  have "0 < pow2 (binadeOf q)" by (rule pow2_pos)
  then show ?thesis using roundDouble_binade [OF assms] by simp
qed

text \<open>
  Claim C8, as the code has it. For a source image of \<open>srcW\<times>srcH\<close> pixels and positive \<^verbatim>\<open>maxWidth\<close>,
  \<^verbatim>\<open>maxHeight\<close> and \<^verbatim>\<open>superSample\<close> (with \<open>srcW * superSample\<close> and \<open>srcH * superSample\<close> below
  \<open>2 ^ 53\<close>, so that these integers are doubles), the scale is
  \<^verbatim>\<open>min(maxWidth / srcW, maxHeight / srcH, 1)\<close> and the target sizes are
  \<^verbatim>\<open>floor(srcW * scale * superSample)\<close> and \<^verbatim>\<open>floor(srcH * scale * superSample)\<close>, each
  operation rounded to double precision as JavaScript does. The scale is positive and at
  most 1; the scaled sizes before super-sampling do not exceed the source sizes, and the
  target sizes do not exceed the source sizes times the super-sampling factor. An image
  inside the bounding box has scale 1 and target sizes exactly \<open>srcW * superSample\<close> and
  \<open>srcH * superSample\<close>. These target sizes are the dimensions of the buffer that is traced.
\<close>

theorem target_dimensions:
  fixes options :: vector_options and srcW srcH :: nat and env :: environment
  defines "scale \<equiv> min (roundDouble (of_nat (maxWidth options) / of_nat srcW))
                      (min (roundDouble (of_nat (maxHeight options) / of_nat srcH)) 1)"
  defines "tw \<equiv> nat \<lfloor>roundDouble (roundDouble (of_nat srcW * scale) * of_nat (superSample options))\<rfloor>"
  defines "th \<equiv> nat \<lfloor>roundDouble (roundDouble (of_nat srcH * scale) * of_nat (superSample options))\<rfloor>"
  assumes "0 < srcW" and "0 < srcH"
    and "0 < maxWidth options" and "0 < maxHeight options" and "0 < superSample options"
    and "srcW * superSample options < 2 ^ 53" and "srcH * superSample options < 2 ^ 53"
  shows "scaleOf options srcW srcH = Finite scale
       \<and> targetSize (scaleOf options srcW srcH) srcW (superSample options) = Some tw
       \<and> targetSize (scaleOf options srcW srcH) srcH (superSample options) = Some th
       \<and> 0 < scale \<and> scale \<le> 1
       \<and> roundDouble (of_nat srcW * scale) \<le> of_nat srcW
       \<and> roundDouble (of_nat srcH * scale) \<le> of_nat srcH
       \<and> tw \<le> srcW * superSample options
       \<and> th \<le> srcH * superSample options
       \<and> (srcW \<le> maxWidth options \<and> srcH \<le> maxHeight options \<longrightarrow>
            scale = 1 \<and> tw = srcW * superSample options \<and> th = srcH * superSample options)
       \<and> (imageLoad env = Some (srcW, srcH) \<and> context2d env \<and> 0 < tw \<and> 0 < th \<longrightarrow>
            fst (traceImageToSVG env options) =
              Inr (svgDocument tw th
                    (colorPaths (growPhase
                       \<lparr>targetWidth = tw, targetHeight = th, data = rasterize env tw th\<rparr>
                       (tolerance options)))))"
proof -
  have sc: "scaleOf options srcW srcH = Finite scale"
    unfolding scale_def by (rule scaleOf_finite) fact+
  have tsw: "targetSize (scaleOf options srcW srcH) srcW (superSample options) = Some tw"
    and tsh: "targetSize (scaleOf options srcW srcH) srcH (superSample options) = Some th"
    unfolding sc by (simp_all add: targetSize_def tw_def th_def)
  have a: "0 < roundDouble (of_nat (maxWidth options) / of_nat srcW)"
    using assms(4,6) by (intro roundDouble_positive) simp
  have b: "0 < roundDouble (of_nat (maxHeight options) / of_nat srcH)"
    using assms(5,7) by (intro roundDouble_positive) simp
  have s0: "0 < scale" using a b by (simp add: scale_def)
  have s1: "scale \<le> 1" by (simp add: scale_def)
  have s0': "0 \<le> scale" using s0 by simp
  note w = scaled_size_le [OF s0' s1 assms(9) assms(8)]
  note h = scaled_size_le [OF s0' s1 assms(10) assms(8)]
  have inside: "srcW \<le> maxWidth options \<and> srcH \<le> maxHeight options \<longrightarrow>
            scale = 1 \<and> tw = srcW * superSample options \<and> th = srcH * superSample options"
  proof
    assume in_box: "srcW \<le> maxWidth options \<and> srcH \<le> maxHeight options"
    have "1 \<le> roundDouble (of_nat (maxWidth options) / of_nat srcW)"
      using in_box assms(4) by (intro ratio_ge_1) simp_all
    moreover have "1 \<le> roundDouble (of_nat (maxHeight options) / of_nat srcH)"
      using in_box assms(5) by (intro ratio_ge_1) simp_all
    ultimately have one: "scale = 1" by (simp add: scale_def)
    show "scale = 1 \<and> tw = srcW * superSample options \<and> th = srcH * superSample options"
      unfolding tw_def th_def one
      using unscaled_size [OF assms(9) assms(8)] unscaled_size [OF assms(10) assms(8)]
      by simp
  qed
  have entry: "imageLoad env = Some (srcW, srcH) \<and> context2d env \<and> 0 < tw \<and> 0 < th \<longrightarrow>
            fst (traceImageToSVG env options) =
              Inr (svgDocument tw th
                    (colorPaths (growPhase
                       \<lparr>targetWidth = tw, targetHeight = th, data = rasterize env tw th\<rparr>
                       (tolerance options))))"
    by (simp add: traceImageToSVG_def Let_def tsw tsh)
  show ?thesis
    using sc tsw tsh s0 s1 w h inside entry
    unfolding tw_def [symmetric] th_def [symmetric]
    by blast
qed

lemma roundDouble_half: "roundDouble (1 / 2) = 1 / 2"
  by code_simp

theorem target_dimensions_witness:
  "0 < (8::nat) \<and> 0 < (4::nat)
   \<and> 0 < maxWidth smallBoxOptions \<and> 0 < maxHeight smallBoxOptions \<and> 0 < superSample smallBoxOptions
   \<and> 8 * superSample smallBoxOptions < 2 ^ 53 \<and> 4 * superSample smallBoxOptions < 2 ^ 53
   \<and> scaleOf smallBoxOptions 8 4 = Finite (1 / 2)
   \<and> targetSize (scaleOf smallBoxOptions 8 4) 8 (superSample smallBoxOptions) = Some 8
   \<and> targetSize (scaleOf smallBoxOptions 8 4) 4 (superSample smallBoxOptions) = Some 4
   \<and> imageLoad wideImage = Some (8, 4) \<and> context2d wideImage
   \<and> fst (traceImageToSVG wideImage smallBoxOptions) =
        Inr (svgDocument 8 4
              (colorPaths (growPhase
                 \<lparr>targetWidth = 8, targetHeight = 4, data = rasterize wideImage 8 4\<rparr>
                 (tolerance smallBoxOptions))))
   \<and> 3 \<le> maxWidth defaultOptions \<and> 2 \<le> maxHeight defaultOptions
   \<and> scaleOf defaultOptions 3 2 = Finite 1
   \<and> targetSize (scaleOf defaultOptions 3 2) 3 (superSample defaultOptions) = Some 6
   \<and> targetSize (scaleOf defaultOptions 3 2) 2 (superSample defaultOptions) = Some 4"
proof -
  have o1: "maxWidth smallBoxOptions = 4" "maxHeight smallBoxOptions = 4"
    "superSample smallBoxOptions = 2"
    by (simp_all add: smallBoxOptions_def)
  have o2: "maxWidth defaultOptions = 4096" "maxHeight defaultOptions = 4096"
    "superSample defaultOptions = 2"
    by (simp_all add: defaultOptions_def)
  have e1: "imageLoad wideImage = Some (8, 4)" "context2d wideImage"
    by (simp_all add: wideImage_def)
  have r: "roundDouble 1 = 1" "roundDouble 4 = 4" "roundDouble 2 = 2" "roundDouble 8 = 8"
    using roundDouble_of_nat [of 1] roundDouble_of_nat [of 4] roundDouble_of_nat [of 2]
      roundDouble_of_nat [of 8]
    by simp_all
  note t1 = target_dimensions [of 8 4 smallBoxOptions wideImage]
  note t2 = target_dimensions [of 3 2 defaultOptions smallImage]
  have s1: "scaleOf smallBoxOptions 8 4 = Finite (1 / 2)
      \<and> targetSize (Finite (1 / 2)) 8 2 = Some 8
      \<and> targetSize (Finite (1 / 2)) 4 2 = Some 4
      \<and> (imageLoad wideImage = Some (8, 4) \<and> context2d wideImage \<longrightarrow>
          fst (traceImageToSVG wideImage smallBoxOptions) =
            Inr (svgDocument 8 4
              (colorPaths (growPhase
                 \<lparr>targetWidth = 8, targetHeight = 4, data = rasterize wideImage 8 4\<rparr>
                 (tolerance smallBoxOptions)))))"
    using t1 by (auto simp add: o1 r roundDouble_half)
  have s2: "scaleOf defaultOptions 3 2 = Finite 1
      \<and> targetSize (Finite 1) 3 2 = Some 6
      \<and> targetSize (Finite 1) 2 2 = Some 4"
    using t2 by (auto simp add: o2)
  have doc: "fst (traceImageToSVG wideImage smallBoxOptions) =
            Inr (svgDocument 8 4
              (colorPaths (growPhase
                 \<lparr>targetWidth = 8, targetHeight = 4, data = rasterize wideImage 8 4\<rparr>
                 (tolerance smallBoxOptions))))"
    using s1 e1 by blast
  show ?thesis
    unfolding o1 o2 using s1 s2 doc e1 by simp
qed

text \<open>
  The roundings are those of the source, not of exact arithmetic: for a \<open>6272\<times>4000\<close> image
  under the default options the products fall just short of 8192, and
  \<^verbatim>\<open>Math.floor((29 / 100) * 100)\<close> is 28.
\<close>

lemma target_width_rounding:
  "targetSize (scaleOf defaultOptions 6272 4000) 6272 (superSample defaultOptions) = Some 8191"
proof -
  have x: "roundDouble (32 / 49) = 5882252574524729 / 9007199254740992"
    by code_simp
  have y: "roundDouble (128 / 125) = 1152921504606847 / 1125899906842624"
    by code_simp
  have z: "roundDouble (288230376151711721 / 70368744177664) =
      9007199254740991 / 2199023255552"
    by code_simp
  have v: "roundDouble (9007199254740991 / 1099511627776) =
      9007199254740991 / 1099511627776"
    by code_simp
  have f: "\<lfloor>9007199254740991 / 1099511627776 :: rat\<rfloor> = 8191"
    by code_simp
  have s: "scaleOf defaultOptions 6272 4000 = Finite (5882252574524729 / 9007199254740992)"
    by (simp add: scaleOf_def jsDivide_def defaultOptions_def x y)
  show ?thesis
    unfolding s by (simp add: targetSize_def defaultOptions_def z v f)
qed

lemma progress_rounding: "progressPercent 29 100 = Some 28"
  by code_simp

text \<open>
  Claim C8 as stated fails: the target size is not always the floor of the exact product.
  A \<open>6272\<times>4000\<close> image under the default options has the exact scale \<open>4096 / 6272\<close> and
  the exact width \<open>6272 * scale * 2 = 8192\<close>; the source computes the width 8191.
\<close>

theorem target_dimensions_counterexample:
  "targetSize (scaleOf defaultOptions 6272 4000) 6272 (superSample defaultOptions) = Some 8191
   \<and> \<lfloor>6272 * min (of_nat (maxWidth defaultOptions) / 6272)
                 (min (of_nat (maxHeight defaultOptions) / 4000) 1)
        * of_nat (superSample defaultOptions) :: rat\<rfloor> = 8192"
proof -
  have "\<lfloor>6272 * min (of_nat (maxWidth defaultOptions) / 6272)
                 (min (of_nat (maxHeight defaultOptions) / 4000) 1)
        * of_nat (superSample defaultOptions) :: rat\<rfloor> = 8192"
    by (simp add: defaultOptions_def)
  with target_width_rounding show ?thesis by (rule conjI)
qed

end
